theory Spec2Isabelle
  imports Main "HOL-Library.Word"
begin

section \<open>JavaScript strings\<close>

text \<open>
  A JavaScript string is a sequence of 16-bit code units. ASCII literals of the source
  are written through \<open>js\<close>; the Vietnamese notification texts are kept as the
  constructors of \<open>fixed_msg\<close>, one per literal of the source.
\<close>

type_synonym jschar = "16 word"
type_synonym jsstring = "jschar list"

definition js :: "string \<Rightarrow> jsstring" where
  "js s = map of_char s"

definition startsWith :: "jsstring \<Rightarrow> jsstring \<Rightarrow> bool" where
  "startsWith p s = (take (length p) s = p)"

text \<open>Line terminators of ECMAScript: LF, CR, LS, PS. The regular-expression dot
  matches every code unit but these.\<close>

definition is_line_terminator :: "jschar \<Rightarrow> bool" where
  "is_line_terminator c = (c = 0x000A \<or> c = 0x000D \<or> c = 0x2028 \<or> c = 0x2029)"

text \<open>What \<open>String.prototype.trim\<close> strips: white space and line terminators.\<close>

definition is_js_whitespace :: "jschar \<Rightarrow> bool" where
  "is_js_whitespace c =
     (c = 0x0009 \<or> c = 0x000B \<or> c = 0x000C \<or> c = 0x0020 \<or> c = 0x00A0 \<or> c = 0xFEFF
      \<or> c = 0x1680 \<or> (0x2000 \<le> c \<and> c \<le> 0x200A) \<or> c = 0x202F \<or> c = 0x205F
      \<or> c = 0x3000 \<or> is_line_terminator c)"

definition trim :: "jsstring \<Rightarrow> jsstring" where
  "trim s = rev (dropWhile is_js_whitespace (rev (dropWhile is_js_whitespace s)))"

section \<open>The URL pattern of main.js\<close>

text \<open>
  \<open>/^(https?:\/\/)?(www\.)?(youtube\.com|youtu\.be)\/.+$/\<close> as a backtracking
  matcher: a matcher maps the rest of the input to the list of rests it can leave, in
  the order the engine tries them (greedy option first).
\<close>

type_synonym matcher = "jsstring \<Rightarrow> jsstring list"

definition lit :: "jsstring \<Rightarrow> matcher" where
  "lit p s = (if startsWith p s then [drop (length p) s] else [])"

definition seq :: "matcher \<Rightarrow> matcher \<Rightarrow> matcher" where
  "seq m1 m2 s = concat (map m2 (m1 s))"

definition alt :: "matcher \<Rightarrow> matcher \<Rightarrow> matcher" where
  "alt m1 m2 s = m1 s @ m2 s"

definition opt :: "matcher \<Rightarrow> matcher" where
  "opt m s = m s @ [s]"

text \<open>\<open>.+$\<close>: at least one code unit, none of them a line terminator, up to the end
  of the input (the pattern has no \<open>m\<close> flag).\<close>

definition dot_plus_end :: "jsstring \<Rightarrow> bool" where
  "dot_plus_end s = (s \<noteq> [] \<and> list_all (\<lambda>c. \<not> is_line_terminator c) s)"

definition youtubeRegex :: matcher where
  "youtubeRegex =
     seq (opt (seq (lit (js ''http'')) (seq (opt (lit (js ''s''))) (lit (js ''://'')))))
       (seq (opt (lit (js ''www.'')))
         (seq (alt (lit (js ''youtube.com'')) (lit (js ''youtu.be'')))
           (lit (js ''/''))))"

definition isValidYouTubeUrl :: "jsstring \<Rightarrow> bool" where
  "isValidYouTubeUrl url = list_ex dot_plus_end (youtubeRegex url)"

text \<open>The same language, said declaratively: an optional scheme, an optional
  \<open>www.\<close>, one of the two hosts, a slash and a non-empty rest on one line.\<close>

definition youtube_shaped :: "jsstring \<Rightarrow> bool" where
  "youtube_shaped url =
     (\<exists>scheme w host rest.
        url = scheme @ w @ host @ js ''/'' @ rest \<and>
        (scheme = [] \<or> scheme = js ''http://'' \<or> scheme = js ''https://'') \<and>
        (w = [] \<or> w = js ''www.'') \<and>
        (host = js ''youtube.com'' \<or> host = js ''youtu.be'') \<and>
        rest \<noteq> [] \<and> list_all (\<lambda>c. \<not> is_line_terminator c) rest)"

section \<open>The page: alerts, timers, requests\<close>

text \<open>The literal notification texts of the two scripts, named after what they say.\<close>

datatype fixed_msg =
    Enter_youtube_url
  | Invalid_youtube_url
  | Get_video_info_first
  | Download_succeeded
  | Form_data_cleared
  | Visitors_refreshed
  | Downloads_refreshed
  | Autosaving_settings
  | Session_about_to_expire
  | Choose_banner_to_delete
  | Feature_in_development
  | Enter_banner_title
  | Choose_banner_position

datatype msg_prefix =
    Connection_error
  | Download_error
  | Preview_error
  | Upload_error
  | Save_banner_error
  | Delete_banner_error
  | Save_settings_error
  | Exported_file

datatype message =
    Fixed fixed_msg
  | Dynamic jsstring
  | Prefixed msg_prefix jsstring

text \<open>Where a script puts its alert: admin.js appends it to the body with a fixed
  position, main.js prepends it to the download form.\<close>

datatype alert_place = Body_fixed | Download_form

text \<open>An alert element. \<open>alert_id\<close> is the identity of the element and
  \<open>alert_shown_at\<close> the time it was created; the scripts read neither, the statements
  below do. \<open>alert_fading\<close> says that its fade-out is running.\<close>

record alert_el =
  alert_id :: nat
  alert_class :: jsstring
  alert_icon :: jsstring
  alert_message :: message
  alert_place :: alert_place
  alert_shown_at :: nat
  alert_fading :: bool

text \<open>What a pending timeout will do: start the fade-out of an alert (the callback
  \<open>showAlert\<close> hands to \<open>setTimeout\<close>), remove an alert (the callback it hands to
  \<open>fadeOut\<close>), or save the settings (the callback of the auto-save).\<close>

datatype timer_action = DismissAlert nat | RemoveAlert nat | AutoSave

record timer =
  tid :: nat
  due :: nat
  act :: timer_action

datatype image_file = ImageFile jsstring

record banner_form =
  bf_title :: jsstring
  bf_description :: jsstring
  bf_link_url :: jsstring
  bf_position :: jsstring
  bf_status :: bool
  bf_id :: "jsstring option"
  bf_image_path :: "jsstring option"

datatype body =
    NoBody
  | VideoInfoReq jsstring
  | DownloadReq jsstring jsstring jsstring
  | PreviewReq jsstring jsstring
  | ImageUpload image_file
  | BannerJson banner_form
  | DeleteJson jsstring
  | SettingsJson "(jsstring \<times> jsstring) list"

record request =
  req_url :: jsstring
  req_method :: jsstring
  req_body :: body

text \<open>
  What both pages share: a clock in milliseconds, the pending timeouts in creation
  order, the \<open>.alert\<close> elements of the document, the requests sent so far and the
  callbacks still waiting for their response.
\<close>

record 'cb page =
  now :: nat
  timers :: "timer list"
  next_timer :: nat
  alerts :: "alert_el list"
  next_elem :: nat
  requests :: "request list"
  pending :: "'cb list"

definition setTimeout :: "timer_action \<Rightarrow> nat \<Rightarrow> ('cb, 'a) page_scheme \<Rightarrow> ('cb, 'a) page_scheme" where
  "setTimeout f delay s =
     s\<lparr>timers := timers s @ [\<lparr>tid = next_timer s, due = now s + delay, act = f\<rparr>],
       next_timer := Suc (next_timer s)\<rparr>"

definition clearTimeout :: "nat option \<Rightarrow> ('cb, 'a) page_scheme \<Rightarrow> ('cb, 'a) page_scheme" where
  "clearTimeout h s =
     (case h of None \<Rightarrow> s
      | Some i \<Rightarrow> s\<lparr>timers := filter (\<lambda>t. tid t \<noteq> i) (timers s)\<rparr>)"

definition send :: "jsstring \<Rightarrow> jsstring \<Rightarrow> body \<Rightarrow> 'cb \<Rightarrow> ('cb, 'a) page_scheme \<Rightarrow> ('cb, 'a) page_scheme" where
  "send u m b cb s =
     s\<lparr>requests := requests s @ [\<lparr>req_url = u, req_method = m, req_body = b\<rparr>],
       pending := pending s @ [cb]\<rparr>"

text \<open>The duration of \<open>fadeOut\<close> when none is given: jQuery's default, 400 ms.\<close>

definition fade_duration :: nat where
  "fade_duration = 400"

text \<open>\<open>alert.fadeOut(function() { $(this).remove(); })\<close>: an alert that is in the
  document fades for the duration and is removed when the fade is over. On an alert
  that has left the document the call changes nothing.\<close>

definition fadeOut :: "nat \<Rightarrow> ('cb, 'a) page_scheme \<Rightarrow> ('cb, 'a) page_scheme" where
  "fadeOut a s =
     (if list_ex (\<lambda>e. alert_id e = a) (alerts s)
      then setTimeout (RemoveAlert a) fade_duration
             (s\<lparr>alerts := map (\<lambda>e. if alert_id e = a then e\<lparr>alert_fading := True\<rparr> else e)
                              (alerts s)\<rparr>)
      else s)"

definition remove_alert :: "nat \<Rightarrow> ('cb, 'a) page_scheme \<Rightarrow> ('cb, 'a) page_scheme" where
  "remove_alert a s = s\<lparr>alerts := filter (\<lambda>e. alert_id e \<noteq> a) (alerts s)\<rparr>"

text \<open>The pending timeout that is due first; among equal due times the one set first.\<close>

fun earliest :: "timer list \<Rightarrow> timer option" where
  "earliest [] = None"
| "earliest (t # ts) =
     (case earliest ts of
        None \<Rightarrow> Some t
      | Some u \<Rightarrow> if due u < due t then Some u else Some t)"

lemma earliest_mem: "earliest ts = Some t \<Longrightarrow> t \<in> set ts"
  by (induction ts arbitrary: t) (auto split: option.splits if_splits)

text \<open>An auto-save sets one timeout when it runs (the dismissal of its alert), a
  dismissal sets at most one (the removal), a removal sets none. That bounds the
  timeouts that can still run.\<close>

definition weight :: "timer \<Rightarrow> nat" where
  "weight t = (case act t of DismissAlert a \<Rightarrow> 2 | RemoveAlert a \<Rightarrow> 1 | AutoSave \<Rightarrow> 4)"

definition load :: "timer list \<Rightarrow> nat" where
  "load ts = sum_list (map weight ts)"

lemma load_filter_le: "load (filter P ts) \<le> load ts"
  by (induction ts) (auto simp: load_def)

lemma load_filter_tid: "t \<in> set ts \<Longrightarrow> load (filter (\<lambda>u. tid u \<noteq> tid t) ts) + weight t \<le> load ts"
proof (induction ts)
  case Nil
  then show ?case by simp
next
  case (Cons u ts)
  have le: "load (filter (\<lambda>u. tid u \<noteq> tid t) ts) \<le> load ts" by (rule load_filter_le)
  show ?case
  proof (cases "tid u = tid t")
    case True
    then have "weight t \<le> weight u \<or> t \<in> set ts"
      using Cons.prems by auto
    then show ?thesis
    proof
      assume "weight t \<le> weight u"
      with True le show ?thesis by (simp add: load_def)
    next
      assume "t \<in> set ts"
      then have "load (filter (\<lambda>u. tid u \<noteq> tid t) ts) + weight t \<le> load ts"
        by (rule Cons.IH)
      with True show ?thesis by (simp add: load_def)
    qed
  next
    case False
    then have "t \<in> set ts" using Cons.prems by auto
    then have "load (filter (\<lambda>u. tid u \<noteq> tid t) ts) + weight t \<le> load ts"
      by (rule Cons.IH)
    with False show ?thesis by (simp add: load_def)
  qed
qed

lemma load_fadeOut: "load (timers (fadeOut a s)) \<le> load (timers s) + 1"
  by (simp add: fadeOut_def setTimeout_def load_def weight_def)

lemma load_remove_alert: "load (timers (remove_alert a s)) = load (timers s)"
  by (simp add: remove_alert_def)

section \<open>main.js\<close>

record video_info =
  vi_title :: jsstring
  vi_uploader :: jsstring
  vi_duration :: nat
  vi_view_count :: nat
  vi_thumbnail :: jsstring

record subtitle =
  sub_code :: jsstring
  sub_name :: jsstring
  sub_type :: jsstring

datatype main_cb = VideoInfoCb | DownloadCb jsstring | PreviewCb

datatype main_response =
    AjaxError jsstring
  | VideoInfoOk video_info "subtitle list"
  | PreviewOk jsstring
  | Failure jsstring
  | FetchOk jsstring
  | FetchNotOk "jsstring option"
  | FetchRejected jsstring

record main_state = "main_cb page" +
  youtube_url :: jsstring
  source_language :: jsstring
  currentVideoInfo :: "video_info option"
  loading :: bool
  displayed_info :: "video_info option"
  video_preview_shown :: bool
  language_options :: "(jsstring \<times> jsstring) list"
  preview_content :: jsstring
  preview_modal_shown :: bool
  saved_blobs :: "jsstring list"
  get_info_disabled :: bool
  url_error :: bool
  downloads_disabled :: bool

text \<open>The page at \<open>ready\<close>. The two form values are what the template and the
  local storage put there; whether the get-info button and the download and preview
  buttons start disabled is the template's. The script writes the form values to the
  local storage and reads them at \<open>ready\<close> only, so the storage is left out.\<close>

definition main_init ::
  "jsstring \<Rightarrow> jsstring \<Rightarrow> (jsstring \<times> jsstring) list \<Rightarrow> bool \<Rightarrow> bool \<Rightarrow> main_state" where
  "main_init url0 lang0 opts0 info_off downloads_off =
     \<lparr>now = 0, timers = [], next_timer = 0, alerts = [], next_elem = 0,
      requests = [], pending = [],
      youtube_url = url0, source_language = lang0, currentVideoInfo = None,
      loading = False, displayed_info = None, video_preview_shown = False,
      language_options = opts0, preview_content = [], preview_modal_shown = False,
      saved_blobs = [], get_info_disabled = info_off, url_error = False,
      downloads_disabled = downloads_off\<rparr>"

definition main_showAlert :: "message \<Rightarrow> jsstring \<Rightarrow> main_state \<Rightarrow> main_state" where
  "main_showAlert message type s =
     (let alertClass = (if type = js ''error'' then js ''alert-error''
                        else if type = js ''success'' then js ''alert-success''
                        else js ''alert-info'');
          icon = (if type = js ''error'' then js ''fas fa-exclamation-circle''
                  else if type = js ''success'' then js ''fas fa-check-circle''
                  else js ''fas fa-info-circle'');
          el = \<lparr>alert_id = next_elem s, alert_class = alertClass, alert_icon = icon,
                alert_message = message, alert_place = Download_form,
                alert_shown_at = now s, alert_fading = False\<rparr>
      in setTimeout (DismissAlert (next_elem s)) 5000
           (s\<lparr>alerts := [el], next_elem := Suc (next_elem s)\<rparr>))"

definition showLoading :: "main_state \<Rightarrow> main_state" where
  "showLoading s = s\<lparr>loading := True\<rparr>"

definition hideLoading :: "main_state \<Rightarrow> main_state" where
  "hideLoading s = s\<lparr>loading := False\<rparr>"

definition getVideoInfo :: "jsstring \<Rightarrow> main_state \<Rightarrow> main_state" where
  "getVideoInfo url s =
     send (js ''/get-video-info'') (js ''POST'') (VideoInfoReq url) VideoInfoCb (showLoading s)"

definition downloadSubtitle :: "jsstring \<Rightarrow> jsstring \<Rightarrow> jsstring \<Rightarrow> main_state \<Rightarrow> main_state" where
  "downloadSubtitle url format sourceLanguage s =
     send (js ''/download-subtitle'') (js ''POST'') (DownloadReq url format sourceLanguage)
       (DownloadCb format) (showLoading s)"

definition previewSubtitle :: "jsstring \<Rightarrow> jsstring \<Rightarrow> main_state \<Rightarrow> main_state" where
  "previewSubtitle url sourceLanguage s =
     send (js ''/preview-subtitle'') (js ''POST'') (PreviewReq url sourceLanguage)
       PreviewCb (showLoading s)"

definition click_get_info :: "main_state \<Rightarrow> main_state" where
  "click_get_info s =
     (let url = trim (youtube_url s) in
      if url = [] then main_showAlert (Fixed Enter_youtube_url) (js ''error'') s
      else if \<not> isValidYouTubeUrl url
        then main_showAlert (Fixed Invalid_youtube_url) (js ''error'') s
      else getVideoInfo url s)"

definition click_download :: "jsstring \<Rightarrow> main_state \<Rightarrow> main_state" where
  "click_download format s =
     (let url = trim (youtube_url s); sourceLanguage = source_language s in
      if currentVideoInfo s = None
        then main_showAlert (Fixed Get_video_info_first) (js ''error'') s
      else downloadSubtitle url format sourceLanguage s)"

definition click_preview :: "main_state \<Rightarrow> main_state" where
  "click_preview s =
     (let url = trim (youtube_url s); sourceLanguage = source_language s in
      if currentVideoInfo s = None
        then main_showAlert (Fixed Get_video_info_first) (js ''error'') s
      else previewSubtitle url sourceLanguage s)"

definition updateLanguageOptions :: "subtitle list \<Rightarrow> main_state \<Rightarrow> main_state" where
  "updateLanguageOptions availableSubtitles s =
     s\<lparr>language_options :=
         take 1 (language_options s) @
         map (\<lambda>b. (sub_code b, sub_name b @ js '' ('' @ sub_type b @ js '')'')) availableSubtitles,
       source_language := js ''en''\<rparr>"

definition click_clear :: "main_state \<Rightarrow> main_state" where
  "click_clear s =
     main_showAlert (Fixed Form_data_cleared) (js ''info'')
       (s\<lparr>youtube_url := [], source_language := js ''en'', video_preview_shown := False,
          currentVideoInfo := None\<rparr>)"

text \<open>The \<open>input\<close> handler of the address field: the get-info button is enabled
  exactly when the trimmed value is not empty and matches the pattern; the field is
  marked as in error when the value is not empty and does not match.\<close>

definition url_input :: "main_state \<Rightarrow> main_state" where
  "url_input s =
     (let url = trim (youtube_url s) in
      if url \<noteq> [] \<and> isValidYouTubeUrl url
        then s\<lparr>get_info_disabled := False, url_error := False\<rparr>
      else s\<lparr>get_info_disabled := True, url_error := (url \<noteq> [])\<rparr>)"

text \<open>The \<open>change\<close> handler of the language select: the download and preview
  buttons are enabled exactly when a language is selected.\<close>

definition language_change :: "main_state \<Rightarrow> main_state" where
  "language_change s = s\<lparr>downloads_disabled := (source_language s = [])\<rparr>"

text \<open>The callbacks of the three requests, on the response the server gave.\<close>

fun main_deliver :: "main_cb \<Rightarrow> main_response \<Rightarrow> main_state \<Rightarrow> main_state" where
  "main_deliver VideoInfoCb (VideoInfoOk info subs) s =
     (updateLanguageOptions subs
        ((hideLoading s)\<lparr>currentVideoInfo := Some info, displayed_info := Some info\<rparr>))
       \<lparr>video_preview_shown := True\<rparr>"
| "main_deliver VideoInfoCb (Failure m) s =
     main_showAlert (Dynamic m) (js ''error'') (hideLoading s)"
| "main_deliver VideoInfoCb (AjaxError e) s =
     main_showAlert (Prefixed Connection_error e) (js ''error'') (hideLoading s)"
| "main_deliver PreviewCb (PreviewOk content) s =
     (hideLoading s)\<lparr>preview_content := content, preview_modal_shown := True\<rparr>"
| "main_deliver PreviewCb (Failure m) s =
     main_showAlert (Dynamic m) (js ''error'') (hideLoading s)"
| "main_deliver PreviewCb (AjaxError e) s =
     main_showAlert (Prefixed Preview_error e) (js ''error'') (hideLoading s)"
| "main_deliver (DownloadCb format) (FetchOk blob) s =
     main_showAlert (Fixed Download_succeeded) (js ''success'')
       ((hideLoading s)\<lparr>saved_blobs := saved_blobs s @ [blob]\<rparr>)"
| "main_deliver (DownloadCb format) (FetchNotOk m) s =
     main_showAlert
       (Prefixed Download_error (case m of None \<Rightarrow> js ''Download failed'' | Some t \<Rightarrow>
          if t = [] then js ''Download failed'' else t))
       (js ''error'') (hideLoading s)"
| "main_deliver (DownloadCb format) (FetchRejected e) s =
     main_showAlert (Prefixed Download_error e) (js ''error'') (hideLoading s)"
| "main_deliver _ _ s = s"

text \<open>
  What happens on the page. The user types into the address field (each keystroke an
  \<open>input\<close> event) or selects a language (a \<open>change\<close> event). A mouse click reaches
  the handlers of a button only when the button is not disabled. Enter in the address
  field and Ctrl+Enter anywhere call \<open>$('#get-info-btn').click()\<close>, which runs the
  click handler whether the button is disabled or not.
\<close>

datatype main_event =
    TypeUrl jsstring
  | SetLanguage jsstring
  | ClickGetInfo
  | PressEnter
  | ClickDownload jsstring
  | ClickPreview
  | ClickClear
  | Respond nat main_response
  | Elapse nat

text \<open>A timeout runs when the browser finds it due: it leaves the pending ones, the
  clock is at its due time, and its callback runs. main.js sets no auto-save.\<close>

definition main_fire :: "timer \<Rightarrow> main_state \<Rightarrow> main_state" where
  "main_fire t s =
     (let s' = s\<lparr>timers := filter (\<lambda>u. tid u \<noteq> tid t) (timers s),
                 now := max (now s) (due t)\<rparr>
      in case act t of
           DismissAlert a \<Rightarrow> fadeOut a s'
         | RemoveAlert a \<Rightarrow> remove_alert a s'
         | AutoSave \<Rightarrow> s')"

lemma load_main_fire:
  assumes "t \<in> set (timers s)"
  shows "load (timers (main_fire t s)) < load (timers s)"
proof -
  let ?b = "s\<lparr>timers := filter (\<lambda>u. tid u \<noteq> tid t) (timers s), now := max (now s) (due t)\<rparr>"
  have le: "load (timers ?b) + weight t \<le> load (timers s)"
    using load_filter_tid [OF assms] by simp
  show ?thesis
  proof (cases "act t")
    case (DismissAlert a)
    then have "weight t = 2" by (simp add: weight_def)
    moreover have "load (timers (fadeOut a ?b)) \<le> load (timers ?b) + 1" by (rule load_fadeOut)
    ultimately show ?thesis using le DismissAlert by (simp add: main_fire_def Let_def)
  next
    case (RemoveAlert a)
    then have "weight t = 1" by (simp add: weight_def)
    moreover have "load (timers (remove_alert a ?b)) = load (timers ?b)" by (rule load_remove_alert)
    ultimately show ?thesis using le RemoveAlert by (simp add: main_fire_def Let_def)
  next
    case AutoSave
    then have "weight t = 4" by (simp add: weight_def)
    then show ?thesis using le AutoSave by (simp add: main_fire_def Let_def)
  qed
qed

text \<open>Time passes up to \<open>T\<close>: the due timeouts run, in the order of their due
  times.\<close>

function main_elapse_to :: "nat \<Rightarrow> main_state \<Rightarrow> main_state" where
  "main_elapse_to T s =
     (case earliest (timers s) of
        None \<Rightarrow> s\<lparr>now := max (now s) T\<rparr>
      | Some t \<Rightarrow>
          if due t \<le> T then main_elapse_to T (main_fire t s)
          else s\<lparr>now := max (now s) T\<rparr>)"
  by pat_completeness auto
termination
proof (relation "measure (\<lambda>(T, s). load (timers s))")
  show "wf (measure (\<lambda>(T, s). load (timers s)))" by simp
next
  fix T :: nat and s :: main_state and t
  assume "earliest (timers s) = Some t"
  then have "t \<in> set (timers s)" by (rule earliest_mem)
  then show "((T, main_fire t s), (T, s)) \<in> measure (\<lambda>(T, s). load (timers s))"
    by (simp add: load_main_fire)
qed

declare main_elapse_to.simps [simp del]

fun main_step :: "main_event \<Rightarrow> main_state \<Rightarrow> main_state" where
  "main_step (TypeUrl u) s = url_input (s\<lparr>youtube_url := u\<rparr>)"
| "main_step (SetLanguage l) s = language_change (s\<lparr>source_language := l\<rparr>)"
| "main_step ClickGetInfo s = (if get_info_disabled s then s else click_get_info s)"
| "main_step PressEnter s = click_get_info s"
| "main_step (ClickDownload format) s =
     (if downloads_disabled s then s else click_download format s)"
| "main_step ClickPreview s = (if downloads_disabled s then s else click_preview s)"
| "main_step ClickClear s = click_clear s"
| "main_step (Respond i r) s =
     (if i < length (pending s)
      then main_deliver (pending s ! i) r
             (s\<lparr>pending := take i (pending s) @ drop (Suc i) (pending s)\<rparr>)
      else s)"
| "main_step (Elapse d) s = main_elapse_to (now s + d) s"

definition main_run :: "main_event list \<Rightarrow> main_state \<Rightarrow> main_state" where
  "main_run evs s = fold main_step evs s"

section \<open>admin.js\<close>

subsection \<open>What the server sends\<close>

record popular =
  pv_title :: jsstring
  pv_downloads :: nat

record stats =
  st_active_now :: nat
  st_today_unique :: nat
  st_total_downloads :: nat
  st_total_clicks :: nat
  st_popular_videos :: "popular list"

record visitor =
  v_session_id :: jsstring
  v_ip_address :: jsstring
  v_user_agent :: jsstring
  v_first_visit :: jsstring
  v_last_activity :: jsstring
  v_page_views :: nat
  v_is_active :: bool

record banner =
  b_id :: jsstring
  b_title :: jsstring
  b_description :: jsstring
  b_link_url :: jsstring
  b_position :: jsstring
  b_status :: bool
  b_image_path :: jsstring
  b_clicks :: nat
  b_created_at :: jsstring

record download =
  d_video_title :: jsstring
  d_format_type :: jsstring
  d_download_count :: nat
  d_last_download :: jsstring
  d_video_url :: jsstring

record setting =
  set_key :: jsstring
  set_description :: jsstring
  set_value :: jsstring

record format_stat =
  fs_format :: jsstring
  fs_count :: nat

text \<open>
  A response as jQuery hands it to the callbacks: \<open>HttpError\<close> goes to \<open>error\<close>
  with the status and the error text; every other one goes to \<open>success\<close>, where
  \<open>Refused\<close> is the envelope with \<open>success = false\<close> and its \<open>error\<close> field, and
  the others are envelopes with \<open>success = true\<close> and the payload of their endpoint.
\<close>

datatype admin_response =
    HttpError nat jsstring
  | Refused jsstring
  | StatsOk stats
  | VisitorsOk "visitor list"
  | BannersOk "banner list"
  | DownloadsOk "download list" "format_stat list option"
  | SettingsOk "setting list"
  | UploadOk jsstring
  | Done jsstring

datatype admin_cb =
    DashboardCb
  | FormatChartCb
  | VisitorsCb
  | BannersCb
  | DownloadsCb
  | SettingsCb
  | BannerDataCb jsstring
  | UploadCb banner_form bool
  | SaveBannerCb
  | DeleteBannerCb
  | SaveSettingsCb
  | SessionCb

subsection \<open>The document\<close>

text \<open>What the containers of the five sections show. A row, card or input is kept as
  the record it was rendered from.\<close>

record views =
  stat_cards :: "(nat \<times> nat \<times> nat \<times> nat) option"
  popular_videos :: "popular list option"
  format_chart :: "format_stat list option"
  visitors_rows :: "visitor list"
  banners_cards :: "banner list"
  downloads_rows :: "download list"
  settings_inputs :: "setting list"

datatype modal_title = Template_title | Add_banner | Edit_banner

record banner_modal =
  modal_active :: bool
  modal_title :: modal_title
  in_id :: jsstring
  in_title :: jsstring
  in_description :: jsstring
  in_link :: jsstring
  in_position :: jsstring
  in_status :: bool
  in_image :: "image_file option"
  image_preview :: "jsstring option"

datatype page_title =
    Dashboard_title
  | Manage_visitors_title
  | Manage_banners_title
  | Download_stats_title
  | System_settings_title

datatype loader = Dashboard_loader | Visitors_loader | Banners_loader | Downloads_loader | Settings_loader

datatype interval_action = Auto_refresh | Memory_monitor | Session_check

record content_section =
  section_id :: jsstring
  section_active :: bool

record admin_state = "admin_cb page" +
  currentSection :: jsstring
  content_sections :: "content_section list"
  nav_active :: "jsstring option"
  page_title :: page_title
  views :: views
  modal :: banner_modal
  sessionWarningShown :: bool
  autoSaveTimeout :: "nat option"
  console_errors :: "(loader \<times> jsstring) list"
  exported :: "(jsstring \<times> jsstring) list"
  intervals :: "(nat \<times> interval_action) list"
  form_defaults :: banner_form

subsection \<open>Alerts\<close>

definition admin_showAlert :: "message \<Rightarrow> jsstring \<Rightarrow> admin_state \<Rightarrow> admin_state" where
  "admin_showAlert message type s =
     (let alertClass = (if type = js ''error'' then js ''alert-error''
                        else if type = js ''success'' then js ''alert-success''
                        else if type = js ''info'' then js ''alert-info''
                        else js ''alert-info'');
          icon = (if type = js ''error'' then js ''fas fa-exclamation-circle''
                  else if type = js ''success'' then js ''fas fa-check-circle''
                  else js ''fas fa-info-circle'');
          el = \<lparr>alert_id = next_elem s, alert_class = alertClass, alert_icon = icon,
                alert_message = message, alert_place = Body_fixed,
                alert_shown_at = now s, alert_fading = False\<rparr>
      in setTimeout (DismissAlert (next_elem s)) 5000
           (s\<lparr>alerts := [el], next_elem := Suc (next_elem s)\<rparr>))"

subsection \<open>Loaders and renderers\<close>

definition loadDashboardData :: "admin_state \<Rightarrow> admin_state" where
  "loadDashboardData s = send (js ''/admin/api/stats'') (js ''GET'') NoBody DashboardCb s"

definition loadFormatChart :: "admin_state \<Rightarrow> admin_state" where
  "loadFormatChart s = send (js ''/admin/api/downloads'') (js ''GET'') NoBody FormatChartCb s"

definition loadVisitors :: "admin_state \<Rightarrow> admin_state" where
  "loadVisitors s = send (js ''/admin/api/visitors'') (js ''GET'') NoBody VisitorsCb s"

definition loadBanners :: "admin_state \<Rightarrow> admin_state" where
  "loadBanners s = send (js ''/admin/api/banners'') (js ''GET'') NoBody BannersCb s"

definition loadDownloads :: "admin_state \<Rightarrow> admin_state" where
  "loadDownloads s = send (js ''/admin/api/downloads'') (js ''GET'') NoBody DownloadsCb s"

definition loadSettings :: "admin_state \<Rightarrow> admin_state" where
  "loadSettings s = send (js ''/admin/api/settings'') (js ''GET'') NoBody SettingsCb s"

definition updateDashboardStats :: "stats \<Rightarrow> admin_state \<Rightarrow> admin_state" where
  "updateDashboardStats st s =
     s\<lparr>views := (views s)\<lparr>stat_cards :=
          Some (st_active_now st, st_today_unique st, st_total_downloads st, st_total_clicks st)\<rparr>\<rparr>"

definition updatePopularVideos :: "popular list \<Rightarrow> admin_state \<Rightarrow> admin_state" where
  "updatePopularVideos videos s = s\<lparr>views := (views s)\<lparr>popular_videos := Some videos\<rparr>\<rparr>"

definition updateFormatChart :: "format_stat list \<Rightarrow> admin_state \<Rightarrow> admin_state" where
  "updateFormatChart formatStats s = s\<lparr>views := (views s)\<lparr>format_chart := Some formatStats\<rparr>\<rparr>"

definition updateVisitorsTable :: "visitor list \<Rightarrow> admin_state \<Rightarrow> admin_state" where
  "updateVisitorsTable visitors s = s\<lparr>views := (views s)\<lparr>visitors_rows := visitors\<rparr>\<rparr>"

definition updateBannersGrid :: "banner list \<Rightarrow> admin_state \<Rightarrow> admin_state" where
  "updateBannersGrid banners s = s\<lparr>views := (views s)\<lparr>banners_cards := banners\<rparr>\<rparr>"

definition updateDownloadsTable :: "download list \<Rightarrow> admin_state \<Rightarrow> admin_state" where
  "updateDownloadsTable downloads s = s\<lparr>views := (views s)\<lparr>downloads_rows := downloads\<rparr>\<rparr>"

definition updateSettingsForm :: "setting list \<Rightarrow> admin_state \<Rightarrow> admin_state" where
  "updateSettingsForm settings s = s\<lparr>views := (views s)\<lparr>settings_inputs := settings\<rparr>\<rparr>"

definition console_error :: "loader \<Rightarrow> jsstring \<Rightarrow> admin_state \<Rightarrow> admin_state" where
  "console_error l e s = s\<lparr>console_errors := console_errors s @ [(l, e)]\<rparr>"

subsection \<open>Navigation\<close>

text \<open>The static table of \<open>showSection\<close>. Only its own keys are looked up: the
  inherited members of an object literal are no section names.\<close>

definition titles :: "(jsstring \<times> page_title) list" where
  "titles =
     [(js ''dashboard'', Dashboard_title),
      (js ''visitors'', Manage_visitors_title),
      (js ''banners'', Manage_banners_title),
      (js ''downloads'', Download_stats_title),
      (js ''settings'', System_settings_title)]"

text \<open>\<open>$('#id').addClass('active')\<close>: the first element with that id.\<close>

fun addClass_active :: "jsstring \<Rightarrow> content_section list \<Rightarrow> content_section list" where
  "addClass_active i [] = []"
| "addClass_active i (c # cs) =
     (if section_id c = i then c\<lparr>section_active := True\<rparr> # cs
      else c # addClass_active i cs)"

definition showSection :: "jsstring \<Rightarrow> admin_state \<Rightarrow> admin_state" where
  "showSection section s =
     (let s1 = s\<lparr>currentSection := section\<rparr>;
          s2 = s1\<lparr>content_sections :=
                  map (\<lambda>c. c\<lparr>section_active := False\<rparr>) (content_sections s1)\<rparr>;
          s3 = s2\<lparr>content_sections :=
                  addClass_active (section @ js ''-section'') (content_sections s2)\<rparr>;
          s4 = s3\<lparr>page_title :=
                  (case map_of titles section of Some t \<Rightarrow> t | None \<Rightarrow> Dashboard_title)\<rparr>
      in if section = js ''dashboard'' then loadDashboardData s4
         else if section = js ''visitors'' then loadVisitors s4
         else if section = js ''banners'' then loadBanners s4
         else if section = js ''downloads'' then loadDownloads s4
         else if section = js ''settings'' then loadSettings s4
         else s4)"

definition click_nav :: "jsstring \<Rightarrow> admin_state \<Rightarrow> admin_state" where
  "click_nav section s = showSection section (s\<lparr>nav_active := Some section\<rparr>)"

text \<open>The callback of the 30-second interval.\<close>

definition auto_refresh :: "admin_state \<Rightarrow> admin_state" where
  "auto_refresh s =
     (if currentSection s = js ''dashboard'' then loadDashboardData s
      else if currentSection s = js ''visitors'' then loadVisitors s
      else s)"

text \<open>The callback of the 5-minute interval: one probe of the stats endpoint.\<close>

definition session_check :: "admin_state \<Rightarrow> admin_state" where
  "session_check s = send (js ''/admin/api/stats'') (js ''GET'') NoBody SessionCb s"

subsection \<open>The banner modal and its form\<close>

text \<open>\<open>form.reset()\<close> puts the template's values back and empties the file input.\<close>

definition form_reset :: "banner_form \<Rightarrow> banner_modal \<Rightarrow> banner_modal" where
  "form_reset d m =
     m\<lparr>in_title := bf_title d, in_description := bf_description d, in_link := bf_link_url d,
       in_position := bf_position d, in_status := bf_status d, in_image := None\<rparr>"

definition loadBannerData :: "jsstring \<Rightarrow> admin_state \<Rightarrow> admin_state" where
  "loadBannerData bannerId s =
     send (js ''/admin/api/banners'') (js ''GET'') NoBody (BannerDataCb bannerId) s"

definition showBannerModal :: "jsstring option \<Rightarrow> admin_state \<Rightarrow> admin_state" where
  "showBannerModal bannerId s =
     (let s' = (case bannerId of
                  Some i \<Rightarrow>
                    if i \<noteq> [] then loadBannerData i (s\<lparr>modal := (modal s)\<lparr>modal_title := Edit_banner\<rparr>\<rparr>)
                    else s\<lparr>modal := (form_reset (form_defaults s) (modal s))
                                        \<lparr>modal_title := Add_banner, in_id := []\<rparr>\<rparr>
                | None \<Rightarrow> s\<lparr>modal := (form_reset (form_defaults s) (modal s))
                                        \<lparr>modal_title := Add_banner, in_id := []\<rparr>\<rparr>)
      in s'\<lparr>modal := (modal s')\<lparr>modal_active := True\<rparr>\<rparr>)"

definition closeBannerModal :: "admin_state \<Rightarrow> admin_state" where
  "closeBannerModal s = s\<lparr>modal := (modal s)\<lparr>modal_active := False\<rparr>\<rparr>"

definition saveBanner :: "banner_form \<Rightarrow> bool \<Rightarrow> admin_state \<Rightarrow> admin_state" where
  "saveBanner data isEdit s =
     (let method = (if isEdit then js ''PUT'' else js ''POST'')
      in send (js ''/admin/api/banners'') method (BannerJson data) SaveBannerCb s)"

text \<open>The callback handed to \<open>uploadBannerImage\<close> closes over the form data and the
  edit flag; they travel with the pending upload.\<close>

definition uploadBannerImage :: "image_file \<Rightarrow> banner_form \<Rightarrow> bool \<Rightarrow> admin_state \<Rightarrow> admin_state" where
  "uploadBannerImage f formData isEdit s =
     send (js ''/admin/upload'') (js ''POST'') (ImageUpload f) (UploadCb formData isEdit) s"

text \<open>The first \<open>submit\<close> handler of the banner form (bound first).\<close>

definition banner_form_submit :: "admin_state \<Rightarrow> admin_state" where
  "banner_form_submit s =
     (let bannerId = in_id (modal s);
          isEdit = (bannerId \<noteq> []);
          formData = \<lparr>bf_title = in_title (modal s), bf_description = in_description (modal s),
                      bf_link_url = in_link (modal s), bf_position = in_position (modal s),
                      bf_status = in_status (modal s),
                      bf_id = (if isEdit then Some bannerId else None),
                      bf_image_path = None\<rparr>
      in case in_image (modal s) of
           Some imageFile \<Rightarrow> uploadBannerImage imageFile formData isEdit s
         | None \<Rightarrow> saveBanner formData isEdit s)"

definition validateBannerForm :: "admin_state \<Rightarrow> bool \<times> admin_state" where
  "validateBannerForm s =
     (let title = trim (in_title (modal s)); position = in_position (modal s) in
      if title = [] then (False, admin_showAlert (Fixed Enter_banner_title) (js ''error'') s)
      else if position = [] then (False, admin_showAlert (Fixed Choose_banner_position) (js ''error'') s)
      else (True, s))"

text \<open>The second \<open>submit\<close> handler of the banner form (bound last). What it
  returns only tells the browser not to submit the form itself.\<close>

definition banner_form_validate :: "admin_state \<Rightarrow> admin_state" where
  "banner_form_validate s = snd (validateBannerForm s)"

text \<open>A \<open>submit\<close> event on the banner form: jQuery runs the handlers in the order
  they were bound. The first one neither stops the event nor checks anything.\<close>

definition submit_banner_form :: "admin_state \<Rightarrow> admin_state" where
  "submit_banner_form s = banner_form_validate (banner_form_submit s)"

definition deleteBanner :: "jsstring \<Rightarrow> admin_state \<Rightarrow> admin_state" where
  "deleteBanner bannerId s =
     send (js ''/admin/api/banners'') (js ''DELETE'') (DeleteJson bannerId) DeleteBannerCb s"

definition click_delete_banner :: "jsstring \<Rightarrow> bool \<Rightarrow> admin_state \<Rightarrow> admin_state" where
  "click_delete_banner bannerId confirmed s = (if confirmed then deleteBanner bannerId s else s)"

definition bulkDeleteBanners :: "nat \<Rightarrow> bool \<Rightarrow> admin_state \<Rightarrow> admin_state" where
  "bulkDeleteBanners selected confirmed s =
     (if selected = 0 then admin_showAlert (Fixed Choose_banner_to_delete) (js ''error'') s
      else if confirmed then admin_showAlert (Fixed Feature_in_development) (js ''info'') s
      else s)"

subsection \<open>Settings\<close>

text \<open>\<open>settings[name] = value\<close> on an object: a known key takes the new value, a new
  key is added. The list keeps the keys in the order they were added; JavaScript
  enumerates keys that are array indices first; as an object, which is what is sent,
  the two are the same.\<close>

fun assign :: "jsstring \<Rightarrow> jsstring \<Rightarrow> (jsstring \<times> jsstring) list \<Rightarrow> (jsstring \<times> jsstring) list" where
  "assign k v [] = [(k, v)]"
| "assign k v (p # ps) = (if fst p = k then (k, v) # ps else p # assign k v ps)"

definition collect_settings :: "setting list \<Rightarrow> (jsstring \<times> jsstring) list" where
  "collect_settings inputs = fold (\<lambda>i acc. assign (set_key i) (set_value i) acc) inputs []"

definition saveSettings :: "admin_state \<Rightarrow> admin_state" where
  "saveSettings s =
     send (js ''/admin/api/settings'') (js ''POST'')
       (SettingsJson (collect_settings (settings_inputs (views s)))) SaveSettingsCb s"

text \<open>The \<open>input\<close> handler of the settings form: drop the pending auto-save, set a
  new one two seconds from now.\<close>

definition settings_input :: "admin_state \<Rightarrow> admin_state" where
  "settings_input s =
     (let s1 = clearTimeout (autoSaveTimeout s) s
      in (setTimeout AutoSave 2000 s1)\<lparr>autoSaveTimeout := Some (next_timer s1)\<rparr>)"

text \<open>The user types \<open>v\<close> into the \<open>i\<close>-th input of the settings form.\<close>

definition type_setting :: "nat \<Rightarrow> jsstring \<Rightarrow> admin_state \<Rightarrow> admin_state" where
  "type_setting i v s =
     (if i < length (settings_inputs (views s))
      then settings_input
             (s\<lparr>views := (views s)\<lparr>settings_inputs :=
                  (settings_inputs (views s))[i := (settings_inputs (views s) ! i)\<lparr>set_value := v\<rparr>]\<rparr>\<rparr>)
      else s)"

definition refreshVisitors :: "admin_state \<Rightarrow> admin_state" where
  "refreshVisitors s = admin_showAlert (Fixed Visitors_refreshed) (js ''info'') (loadVisitors s)"

definition refreshDownloads :: "admin_state \<Rightarrow> admin_state" where
  "refreshDownloads s = admin_showAlert (Fixed Downloads_refreshed) (js ''info'') (loadDownloads s)"

subsection \<open>Export\<close>

text \<open>A table as the selectors of \<open>getTableData\<close> see it: the texts of the header
  cells, and for each body row whether jQuery finds it \<open>:visible\<close> and the texts of
  its cells.\<close>

record table_row =
  row_visible :: bool
  row_cells :: "jsstring list"

record html_table =
  thead_cells :: "jsstring list"
  tbody_rows :: "table_row list"

definition replace_commas :: "jsstring \<Rightarrow> jsstring" where
  "replace_commas t = map (\<lambda>c. if c = 0x2C then 0x3B else c) t"

definition getTableData :: "html_table \<Rightarrow> jsstring list list" where
  "getTableData t =
     thead_cells t # map (\<lambda>r. map replace_commas (row_cells r)) (filter row_visible (tbody_rows t))"

text \<open>\<open>Array.prototype.join\<close>.\<close>

fun join :: "jsstring \<Rightarrow> jsstring list \<Rightarrow> jsstring" where
  "join sep [] = []"
| "join sep [x] = x"
| "join sep (x # y # ys) = x @ sep @ join sep (y # ys)"

definition csvContent :: "jsstring list list \<Rightarrow> jsstring" where
  "csvContent data = join [0x0A] (map (join [0x2C]) data)"

definition downloadCSV :: "jsstring list list \<Rightarrow> jsstring \<Rightarrow> admin_state \<Rightarrow> admin_state" where
  "downloadCSV data filename s =
     admin_showAlert (Prefixed Exported_file filename) (js ''success'')
       (s\<lparr>exported := exported s @ [(filename, csvContent data)]\<rparr>)"

text \<open>\<open>exportData\<close>, given the two tables of the document.\<close>

definition exportData :: "jsstring \<Rightarrow> html_table \<Rightarrow> html_table \<Rightarrow> admin_state \<Rightarrow> admin_state" where
  "exportData type visitors_table downloads_table s =
     (let (data, filename) =
            (if type = js ''visitors'' then (getTableData visitors_table, js ''visitors_export.csv'')
             else if type = js ''downloads'' then (getTableData downloads_table, js ''downloads_export.csv'')
             else if type = js ''banners'' then ([], js ''banners_export.csv'')
             else ([], []))
      in if length data > 0 then downloadCSV data filename s else s)"

subsection \<open>The callbacks of the requests\<close>

text \<open>Each callback on the response to its request. The server answers an endpoint
  with the payload of that endpoint; on the payload of another one the state is left
  as it is.\<close>

definition on_dashboard :: "admin_response \<Rightarrow> admin_state \<Rightarrow> admin_state" where
  "on_dashboard r s =
     (case r of
        StatsOk st \<Rightarrow>
          loadFormatChart (updatePopularVideos (st_popular_videos st) (updateDashboardStats st s))
      | HttpError status e \<Rightarrow> console_error Dashboard_loader e s
      | _ \<Rightarrow> s)"

definition on_format_chart :: "admin_response \<Rightarrow> admin_state \<Rightarrow> admin_state" where
  "on_format_chart r s =
     (case r of DownloadsOk recent (Some formatStats) \<Rightarrow> updateFormatChart formatStats s | _ \<Rightarrow> s)"

definition on_visitors :: "admin_response \<Rightarrow> admin_state \<Rightarrow> admin_state" where
  "on_visitors r s =
     (case r of
        VisitorsOk visitors \<Rightarrow> updateVisitorsTable visitors s
      | HttpError status e \<Rightarrow> console_error Visitors_loader e s
      | _ \<Rightarrow> s)"

definition on_banners :: "admin_response \<Rightarrow> admin_state \<Rightarrow> admin_state" where
  "on_banners r s =
     (case r of
        BannersOk banners \<Rightarrow> updateBannersGrid banners s
      | HttpError status e \<Rightarrow> console_error Banners_loader e s
      | _ \<Rightarrow> s)"

definition on_downloads :: "admin_response \<Rightarrow> admin_state \<Rightarrow> admin_state" where
  "on_downloads r s =
     (case r of
        DownloadsOk recent formatStats \<Rightarrow> updateDownloadsTable recent s
      | HttpError status e \<Rightarrow> console_error Downloads_loader e s
      | _ \<Rightarrow> s)"

definition on_settings :: "admin_response \<Rightarrow> admin_state \<Rightarrow> admin_state" where
  "on_settings r s =
     (case r of
        SettingsOk settings \<Rightarrow> updateSettingsForm settings s
      | HttpError status e \<Rightarrow> console_error Settings_loader e s
      | _ \<Rightarrow> s)"

definition on_banner_data :: "jsstring \<Rightarrow> admin_response \<Rightarrow> admin_state \<Rightarrow> admin_state" where
  "on_banner_data bannerId r s =
     (case r of
        BannersOk banners \<Rightarrow>
          (case find (\<lambda>b. b_id b = bannerId) banners of
             None \<Rightarrow> s
           | Some b \<Rightarrow>
               s\<lparr>modal := (modal s)\<lparr>in_id := b_id b, in_title := b_title b,
                    in_description := b_description b, in_link := b_link_url b,
                    in_position := b_position b, in_status := b_status b,
                    image_preview := (if b_image_path b \<noteq> [] then Some (b_image_path b)
                                      else image_preview (modal s))\<rparr>\<rparr>)
      | _ \<Rightarrow> s)"

definition on_upload :: "banner_form \<Rightarrow> bool \<Rightarrow> admin_response \<Rightarrow> admin_state \<Rightarrow> admin_state" where
  "on_upload formData isEdit r s =
     (case r of
        UploadOk imagePath \<Rightarrow> saveBanner (formData\<lparr>bf_image_path := Some imagePath\<rparr>) isEdit s
      | Refused e \<Rightarrow> admin_showAlert (Dynamic e) (js ''error'') s
      | HttpError status e \<Rightarrow> admin_showAlert (Prefixed Upload_error e) (js ''error'') s
      | _ \<Rightarrow> s)"

definition on_save_banner :: "admin_response \<Rightarrow> admin_state \<Rightarrow> admin_state" where
  "on_save_banner r s =
     (case r of
        Done m \<Rightarrow> loadBanners (closeBannerModal (admin_showAlert (Dynamic m) (js ''success'') s))
      | Refused e \<Rightarrow> admin_showAlert (Dynamic e) (js ''error'') s
      | HttpError status e \<Rightarrow> admin_showAlert (Prefixed Save_banner_error e) (js ''error'') s
      | _ \<Rightarrow> s)"

definition on_delete_banner :: "admin_response \<Rightarrow> admin_state \<Rightarrow> admin_state" where
  "on_delete_banner r s =
     (case r of
        Done m \<Rightarrow> loadBanners (admin_showAlert (Dynamic m) (js ''success'') s)
      | Refused e \<Rightarrow> admin_showAlert (Dynamic e) (js ''error'') s
      | HttpError status e \<Rightarrow> admin_showAlert (Prefixed Delete_banner_error e) (js ''error'') s
      | _ \<Rightarrow> s)"

definition on_save_settings :: "admin_response \<Rightarrow> admin_state \<Rightarrow> admin_state" where
  "on_save_settings r s =
     (case r of
        Done m \<Rightarrow> admin_showAlert (Dynamic m) (js ''success'') s
      | Refused e \<Rightarrow> admin_showAlert (Dynamic e) (js ''error'') s
      | HttpError status e \<Rightarrow> admin_showAlert (Prefixed Save_settings_error e) (js ''error'') s
      | _ \<Rightarrow> s)"

text \<open>The session probe: \<open>success\<close> is every response that is no HTTP error.\<close>

definition on_session :: "admin_response \<Rightarrow> admin_state \<Rightarrow> admin_state" where
  "on_session r s =
     (case r of
        HttpError status e \<Rightarrow>
          if status = 401 \<and> \<not> sessionWarningShown s
          then admin_showAlert (Fixed Session_about_to_expire) (js ''error'')
                 (s\<lparr>sessionWarningShown := True\<rparr>)
          else s
      | _ \<Rightarrow> s\<lparr>sessionWarningShown := False\<rparr>)"

definition admin_deliver :: "admin_cb \<Rightarrow> admin_response \<Rightarrow> admin_state \<Rightarrow> admin_state" where
  "admin_deliver cb r s =
     (case cb of
        DashboardCb \<Rightarrow> on_dashboard r s
      | FormatChartCb \<Rightarrow> on_format_chart r s
      | VisitorsCb \<Rightarrow> on_visitors r s
      | BannersCb \<Rightarrow> on_banners r s
      | DownloadsCb \<Rightarrow> on_downloads r s
      | SettingsCb \<Rightarrow> on_settings r s
      | BannerDataCb i \<Rightarrow> on_banner_data i r s
      | UploadCb formData isEdit \<Rightarrow> on_upload formData isEdit r s
      | SaveBannerCb \<Rightarrow> on_save_banner r s
      | DeleteBannerCb \<Rightarrow> on_delete_banner r s
      | SaveSettingsCb \<Rightarrow> on_save_settings r s
      | SessionCb \<Rightarrow> on_session r s)"

subsection \<open>Timeouts\<close>

definition admin_fire :: "timer \<Rightarrow> admin_state \<Rightarrow> admin_state" where
  "admin_fire t s =
     (let s' = s\<lparr>timers := filter (\<lambda>u. tid u \<noteq> tid t) (timers s),
                 now := max (now s) (due t)\<rparr>
      in case act t of
           DismissAlert a \<Rightarrow> fadeOut a s'
         | RemoveAlert a \<Rightarrow> remove_alert a s'
         | AutoSave \<Rightarrow> saveSettings (admin_showAlert (Fixed Autosaving_settings) (js ''info'') s'))"

lemma load_admin_fire:
  assumes "t \<in> set (timers s)"
  shows "load (timers (admin_fire t s)) < load (timers s)"
proof -
  let ?b = "s\<lparr>timers := filter (\<lambda>u. tid u \<noteq> tid t) (timers s), now := max (now s) (due t)\<rparr>"
  have le: "load (timers ?b) + weight t \<le> load (timers s)"
    using load_filter_tid [OF assms] by simp
  show ?thesis
  proof (cases "act t")
    case (DismissAlert a)
    then have "weight t = 2" by (simp add: weight_def)
    moreover have "load (timers (fadeOut a ?b)) \<le> load (timers ?b) + 1" by (rule load_fadeOut)
    ultimately show ?thesis using le DismissAlert by (simp add: admin_fire_def Let_def)
  next
    case (RemoveAlert a)
    then have "weight t = 1" by (simp add: weight_def)
    moreover have "load (timers (remove_alert a ?b)) = load (timers ?b)" by (rule load_remove_alert)
    ultimately show ?thesis using le RemoveAlert by (simp add: admin_fire_def Let_def)
  next
    case AutoSave
    then have "weight t = 4" by (simp add: weight_def)
    with le AutoSave show ?thesis
      by (simp add: admin_fire_def saveSettings_def send_def admin_showAlert_def
            setTimeout_def Let_def load_def weight_def)
  qed
qed

function admin_elapse_to :: "nat \<Rightarrow> admin_state \<Rightarrow> admin_state" where
  "admin_elapse_to T s =
     (case earliest (timers s) of
        None \<Rightarrow> s\<lparr>now := max (now s) T\<rparr>
      | Some t \<Rightarrow>
          if due t \<le> T then admin_elapse_to T (admin_fire t s)
          else s\<lparr>now := max (now s) T\<rparr>)"
  by pat_completeness auto
termination
proof (relation "measure (\<lambda>(T, s). load (timers s))")
  show "wf (measure (\<lambda>(T, s). load (timers s)))" by simp
next
  fix T :: nat and s :: admin_state and t
  assume "earliest (timers s) = Some t"
  then have "t \<in> set (timers s)" by (rule earliest_mem)
  then show "((T, admin_fire t s), (T, s)) \<in> measure (\<lambda>(T, s). load (timers s))"
    by (simp add: load_admin_fire)
qed

declare admin_elapse_to.simps [simp del]

subsection \<open>The page as a whole\<close>

datatype admin_event =
    ClickNav jsstring
  | IntervalFires interval_action
  | AdminRespond nat admin_response
  | AdminElapse nat
  | OpenBannerModal "jsstring option"
  | CloseModal
  | EditBannerForm banner_form "image_file option"
  | SubmitBannerForm
  | ClickDeleteBanner jsstring bool
  | BulkDelete nat bool
  | TypeSetting nat jsstring
  | SaveSettings
  | RefreshVisitors
  | RefreshDownloads
  | ExportData jsstring html_table html_table

text \<open>The user fills the fields of the banner form in; the hidden id field is not
  his to edit.\<close>

definition edit_banner_form :: "banner_form \<Rightarrow> image_file option \<Rightarrow> admin_state \<Rightarrow> admin_state" where
  "edit_banner_form d f s =
     s\<lparr>modal := (modal s)\<lparr>in_title := bf_title d, in_description := bf_description d,
          in_link := bf_link_url d, in_position := bf_position d, in_status := bf_status d,
          in_image := f\<rparr>\<rparr>"

definition interval_fires :: "interval_action \<Rightarrow> admin_state \<Rightarrow> admin_state" where
  "interval_fires a s =
     (case a of Auto_refresh \<Rightarrow> auto_refresh s
      | Memory_monitor \<Rightarrow> s
      | Session_check \<Rightarrow> session_check s)"

fun admin_step :: "admin_event \<Rightarrow> admin_state \<Rightarrow> admin_state" where
  "admin_step (ClickNav section) s = click_nav section s"
| "admin_step (IntervalFires a) s = interval_fires a s"
| "admin_step (AdminRespond i r) s =
     (if i < length (pending s)
      then admin_deliver (pending s ! i) r
             (s\<lparr>pending := take i (pending s) @ drop (Suc i) (pending s)\<rparr>)
      else s)"
| "admin_step (AdminElapse d) s = admin_elapse_to (now s + d) s"
| "admin_step (OpenBannerModal i) s = showBannerModal i s"
| "admin_step CloseModal s = closeBannerModal s"
| "admin_step (EditBannerForm d f) s = edit_banner_form d f s"
| "admin_step SubmitBannerForm s = submit_banner_form s"
| "admin_step (ClickDeleteBanner i c) s = click_delete_banner i c s"
| "admin_step (BulkDelete n c) s = bulkDeleteBanners n c s"
| "admin_step (TypeSetting i v) s = type_setting i v s"
| "admin_step SaveSettings s = saveSettings s"
| "admin_step RefreshVisitors s = refreshVisitors s"
| "admin_step RefreshDownloads s = refreshDownloads s"
| "admin_step (ExportData type vt dt) s = exportData type vt dt s"

definition admin_run :: "admin_event list \<Rightarrow> admin_state \<Rightarrow> admin_state" where
  "admin_run evs s = fold admin_step evs s"

text \<open>The page when the \<open>ready\<close> callback has run: \<open>init\<close> has asked for the
  dashboard data and set the refresh interval, the memory monitor and the session
  probe are set, and the last statement has asked for the dashboard data again. The
  content sections and the values of the banner form are the template's.\<close>

definition admin_init :: "content_section list \<Rightarrow> banner_form \<Rightarrow> admin_state" where
  "admin_init sections0 form0 =
     loadDashboardData (loadDashboardData
       \<lparr>now = 0, timers = [], next_timer = 0, alerts = [], next_elem = 0,
        requests = [], pending = [],
        currentSection = js ''dashboard'', content_sections = sections0, nav_active = None,
        page_title = Dashboard_title,
        views = \<lparr>stat_cards = None, popular_videos = None, format_chart = None,
                  visitors_rows = [], banners_cards = [], downloads_rows = [],
                  settings_inputs = []\<rparr>,
        modal = \<lparr>modal_active = False, modal_title = Template_title, in_id = [],
                  in_title = bf_title form0, in_description = bf_description form0,
                  in_link = bf_link_url form0, in_position = bf_position form0,
                  in_status = bf_status form0, in_image = None, image_preview = None\<rparr>,
        sessionWarningShown = False, autoSaveTimeout = None, console_errors = [],
        exported = [],
        intervals = [(30000, Auto_refresh), (30000, Memory_monitor), (300000, Session_check)],
        form_defaults = form0\<rparr>)"

section \<open>The URL pattern accepts exactly the YouTube-shaped addresses\<close>

lemma startsWith_iff: "startsWith p s \<longleftrightarrow> (\<exists>r. s = p @ r)"
  unfolding startsWith_def
  by (metis append_eq_conv_conj append_take_drop_id)

lemma lit_iff: "r \<in> set (lit p s) \<longleftrightarrow> s = p @ r"
  by (auto simp: lit_def startsWith_iff)

lemma seq_iff: "r \<in> set (seq m1 m2 s) \<longleftrightarrow> (\<exists>q. q \<in> set (m1 s) \<and> r \<in> set (m2 q))"
  by (auto simp: seq_def)

lemma alt_iff: "r \<in> set (alt m1 m2 s) \<longleftrightarrow> r \<in> set (m1 s) \<or> r \<in> set (m2 s)"
  by (auto simp: alt_def)

lemma opt_iff: "r \<in> set (opt m s) \<longleftrightarrow> r \<in> set (m s) \<or> r = s"
  by (auto simp: opt_def)

lemma scheme_iff:
  "q \<in> set (opt (seq (lit (js ''http'')) (seq (opt (lit (js ''s''))) (lit (js ''://'')))) s) \<longleftrightarrow>
   (\<exists>scheme. s = scheme @ q \<and> (scheme = [] \<or> scheme = js ''http://'' \<or> scheme = js ''https://''))"
  by (auto simp: opt_iff seq_iff lit_iff js_def)

lemma opt_lit_iff:
  "q \<in> set (opt (lit p) s) \<longleftrightarrow> (\<exists>w. s = w @ q \<and> (w = [] \<or> w = p))"
  by (auto simp: opt_iff lit_iff)

lemma alt_lit_iff:
  "q \<in> set (alt (lit a) (lit b) s) \<longleftrightarrow> (\<exists>h. s = h @ q \<and> (h = a \<or> h = b))"
  by (auto simp: alt_iff lit_iff)

lemma youtubeRegex_iff:
  "r \<in> set (youtubeRegex url) \<longleftrightarrow>
   (\<exists>scheme w host. url = scheme @ w @ host @ js ''/'' @ r \<and>
      (scheme = [] \<or> scheme = js ''http://'' \<or> scheme = js ''https://'') \<and>
      (w = [] \<or> w = js ''www.'') \<and>
      (host = js ''youtube.com'' \<or> host = js ''youtu.be''))"
proof -
  have "r \<in> set (youtubeRegex url) \<longleftrightarrow>
    (\<exists>q1 q2 q3. (\<exists>scheme. url = scheme @ q1 \<and> (scheme = [] \<or> scheme = js ''http://'' \<or> scheme = js ''https://''))
       \<and> (\<exists>w. q1 = w @ q2 \<and> (w = [] \<or> w = js ''www.''))
       \<and> (\<exists>h. q2 = h @ q3 \<and> (h = js ''youtube.com'' \<or> h = js ''youtu.be''))
       \<and> q3 = js ''/'' @ r)"
    unfolding youtubeRegex_def
    by (simp only: seq_iff[of _ "opt _"] seq_iff[of _ "alt _ _"] scheme_iff opt_lit_iff alt_lit_iff lit_iff) blast
  also have "\<dots> \<longleftrightarrow> (\<exists>scheme w host. url = scheme @ w @ host @ js ''/'' @ r \<and>
      (scheme = [] \<or> scheme = js ''http://'' \<or> scheme = js ''https://'') \<and>
      (w = [] \<or> w = js ''www.'') \<and>
      (host = js ''youtube.com'' \<or> host = js ''youtu.be''))"
    by blast
  finally show ?thesis .
qed

lemma isValidYouTubeUrl_shaped: "isValidYouTubeUrl url = youtube_shaped url"
  unfolding isValidYouTubeUrl_def youtube_shaped_def list_ex_iff Bex_def dot_plus_end_def
  by (simp only: youtubeRegex_iff) blast

section \<open>The admin page: example documents\<close>

text \<open>Modelled from the spec: the admin template is not among the sources. It has one
  content region per section of the enumerated set \<open>{dashboard, visitors, banners,
  downloads, settings}\<close>, the element \<open>#<section>-section\<close>, and the dashboard is the
  one shown at first.\<close>

definition template_sections :: "content_section list" where
  "template_sections =
     [\<lparr>section_id = js ''dashboard-section'', section_active = True\<rparr>,
      \<lparr>section_id = js ''visitors-section'', section_active = False\<rparr>,
      \<lparr>section_id = js ''banners-section'', section_active = False\<rparr>,
      \<lparr>section_id = js ''downloads-section'', section_active = False\<rparr>,
      \<lparr>section_id = js ''settings-section'', section_active = False\<rparr>]"

definition empty_form :: banner_form where
  "empty_form = \<lparr>bf_title = [], bf_description = [], bf_link_url = [], bf_position = [],
     bf_status = False, bf_id = None, bf_image_path = None\<rparr>"

definition page0 :: admin_state where
  "page0 = admin_init template_sections empty_form"

definition visitors_page :: admin_state where
  "visitors_page = admin_run [ClickNav (js ''visitors'')] page0"

definition banners_page :: admin_state where
  "banners_page = admin_run [ClickNav (js ''banners'')] page0"

definition get_request :: "jsstring \<Rightarrow> request" where
  "get_request u = \<lparr>req_url = u, req_method = js ''GET'', req_body = NoBody\<rparr>"

lemmas admin_defs = admin_run_def admin_init_def click_nav_def showSection_def loadDashboardData_def
  loadVisitors_def loadBanners_def loadDownloads_def loadSettings_def send_def titles_def
  interval_fires_def auto_refresh_def session_check_def Let_def

lemmas banner_defs = showBannerModal_def form_reset_def edit_banner_form_def submit_banner_form_def
  banner_form_submit_def banner_form_validate_def validateBannerForm_def saveBanner_def
  uploadBannerImage_def admin_showAlert_def setTimeout_def loadBannerData_def

lemmas page0_defs = page0_def visitors_page_def banners_page_def template_sections_def empty_form_def

lemma requests_showAlert: "requests (admin_showAlert m ty s) = requests s"
  by (simp add: admin_showAlert_def setTimeout_def Let_def)

lemma pending_showAlert: "pending (admin_showAlert m ty s) = pending s"
  by (simp add: admin_showAlert_def setTimeout_def Let_def)

lemma exported_showAlert: "exported (admin_showAlert m ty s) = exported s"
  by (simp add: admin_showAlert_def setTimeout_def Let_def)

section \<open>The 30-second refresh\<close>

text \<open>
  C1, as the code has it. The refresh interval is set at 30000 ms. When it fires with
  the dashboard active it calls \<open>loadDashboardData\<close>, with the visitors section active
  it calls \<open>loadVisitors\<close>, and with any other section active it does nothing.
\<close>

theorem C1_auto_refresh:
  "(30000, Auto_refresh) \<in> set (intervals (admin_init cs form0)) \<and>
   (currentSection s = js ''dashboard'' \<longrightarrow> interval_fires Auto_refresh s = loadDashboardData s) \<and>
   (currentSection s = js ''visitors'' \<longrightarrow> interval_fires Auto_refresh s = loadVisitors s) \<and>
   (currentSection s \<noteq> js ''dashboard'' \<and> currentSection s \<noteq> js ''visitors'' \<longrightarrow>
      interval_fires Auto_refresh s = s)"
  by (simp add: interval_fires_def auto_refresh_def admin_init_def loadDashboardData_def send_def js_def)

theorem C1_auto_refresh_witness:
  "currentSection page0 = js ''dashboard'' \<and>
   interval_fires Auto_refresh page0 = loadDashboardData page0 \<and>
   currentSection visitors_page = js ''visitors'' \<and>
   interval_fires Auto_refresh visitors_page = loadVisitors visitors_page \<and>
   currentSection banners_page = js ''banners'' \<and>
   interval_fires Auto_refresh banners_page = banners_page"
proof -
  have d: "currentSection page0 = js ''dashboard''"
    by (simp add: page0_defs admin_defs)
  have v: "currentSection visitors_page = js ''visitors''"
    by (simp add: page0_defs admin_defs)
  have b: "currentSection banners_page = js ''banners''"
    by (simp add: page0_defs admin_defs)
  have nb: "js ''banners'' \<noteq> js ''dashboard'' \<and> js ''banners'' \<noteq> js ''visitors''"
    by (simp add: js_def)
  have 1: "interval_fires Auto_refresh page0 = loadDashboardData page0"
    using C1_auto_refresh [of _ _ page0] d by blast
  have 2: "interval_fires Auto_refresh visitors_page = loadVisitors visitors_page"
    using C1_auto_refresh [of _ _ visitors_page] v by blast
  have 3: "interval_fires Auto_refresh banners_page = banners_page"
    using C1_auto_refresh [of _ _ banners_page] b nb by metis
  from d v b 1 2 3 show ?thesis by blast
qed

text \<open>The claim as it stands fails for the banners section (and likewise for downloads
  and settings): the interval fires, nothing is requested, \<open>loadBanners\<close> is not
  called.\<close>

theorem C1_banners_not_refreshed_counterexample:
  "currentSection banners_page = js ''banners'' \<and>
   requests (interval_fires Auto_refresh banners_page) = requests banners_page \<and>
   requests (loadBanners banners_page) \<noteq> requests banners_page"
  by (simp add: page0_defs admin_defs js_def)

section \<open>Submitting the banner form\<close>

definition blank_title_form :: banner_form where
  "blank_title_form = \<lparr>bf_title = js ''   '', bf_description = js ''Spring sale'',
     bf_link_url = js ''https://example.com/sale'', bf_position = js ''top'', bf_status = True,
     bf_id = None, bf_image_path = None\<rparr>"

definition blank_title_page :: admin_state where
  "blank_title_page =
     admin_run [ClickNav (js ''banners''), OpenBannerModal None,
                EditBannerForm blank_title_form None] page0"

lemma requests_validate: "requests (banner_form_validate s) = requests s"
  by (simp add: banner_form_validate_def validateBannerForm_def requests_showAlert Let_def)

lemma pending_validate: "pending (banner_form_validate s) = pending s"
  by (simp add: banner_form_validate_def validateBannerForm_def pending_showAlert Let_def)

text \<open>Whatever the form holds, a submission sends one request: the handler that
  validates runs after the handler that sends.\<close>

lemma submit_always_sends:
  "length (requests (submit_banner_form s)) = Suc (length (requests s))"
  by (simp add: submit_banner_form_def requests_validate banner_form_submit_def saveBanner_def
        uploadBannerImage_def send_def Let_def split: option.splits)

text \<open>
  C2 at a failing input: a new banner whose title is three spaces, position \<open>top\<close>, no
  image. The title trims to the empty string; the submission shows the error
  notification of the validation, and the create request has been sent all the same.
\<close>

theorem C2_blank_title_is_sent:
  "trim (in_title (modal blank_title_page)) = [] \<and>
   requests (admin_step SubmitBannerForm blank_title_page) =
     requests blank_title_page @
       [\<lparr>req_url = js ''/admin/api/banners'', req_method = js ''POST'',
         req_body = BannerJson blank_title_form\<rparr>] \<and>
   map alert_message (alerts (admin_step SubmitBannerForm blank_title_page)) =
     [Fixed Enter_banner_title]"
  unfolding blank_title_page_def page0_defs blank_title_form_def
  by (simp add: admin_defs banner_defs trim_def is_js_whitespace_def js_def)

text \<open>The payload the first handler reads from the form, and the requests of a
  submission.\<close>

definition form_payload :: "admin_state \<Rightarrow> banner_form" where
  "form_payload s =
     \<lparr>bf_title = in_title (modal s), bf_description = in_description (modal s),
      bf_link_url = in_link (modal s), bf_position = in_position (modal s),
      bf_status = in_status (modal s),
      bf_id = (if in_id (modal s) = [] then None else Some (in_id (modal s))),
      bf_image_path = None\<rparr>"

definition save_request :: "bool \<Rightarrow> banner_form \<Rightarrow> request" where
  "save_request with_id payload =
     \<lparr>req_url = js ''/admin/api/banners'',
      req_method = (if with_id then js ''PUT'' else js ''POST''),
      req_body = BannerJson payload\<rparr>"

definition upload_request :: "image_file \<Rightarrow> request" where
  "upload_request f =
     \<lparr>req_url = js ''/admin/upload'', req_method = js ''POST'', req_body = ImageUpload f\<rparr>"

lemma submit_without_image:
  "in_image (modal s) = None \<Longrightarrow>
     requests (submit_banner_form s) =
       requests s @ [save_request (in_id (modal s) \<noteq> []) (form_payload s)]"
  by (simp add: submit_banner_form_def requests_validate banner_form_submit_def saveBanner_def
        send_def form_payload_def save_request_def Let_def)

lemma submit_with_image:
  "in_image (modal s) = Some f \<Longrightarrow>
     requests (submit_banner_form s) = requests s @ [upload_request f] \<and>
     pending (submit_banner_form s) =
       pending s @ [UploadCb (form_payload s) (in_id (modal s) \<noteq> [])]"
  by (simp add: submit_banner_form_def requests_validate pending_validate banner_form_submit_def
        uploadBannerImage_def send_def form_payload_def upload_request_def Let_def)

text \<open>
  C7. Without an image the submission sends the create/update request at once. With an
  image it sends the multipart upload only; the create/update request goes out when the
  upload has answered with its path, carrying that path, and not at all when the upload
  fails. The method is PUT when the id field is non-empty and POST when it is empty.
\<close>

theorem C7_upload_then_save:
  "(in_image (modal s) = None \<longrightarrow>
      requests (admin_step SubmitBannerForm s) =
        requests s @ [save_request (in_id (modal s) \<noteq> []) (form_payload s)]) \<and>
   (in_image (modal s) = Some f \<longrightarrow>
      requests (admin_step SubmitBannerForm s) = requests s @ [upload_request f] \<and>
      requests (admin_run [SubmitBannerForm, AdminRespond (length (pending s)) (UploadOk path)] s) =
        requests s @ [upload_request f,
                      save_request (in_id (modal s) \<noteq> [])
                        ((form_payload s)\<lparr>bf_image_path := Some path\<rparr>)] \<and>
      requests (admin_run [SubmitBannerForm, AdminRespond (length (pending s)) (Refused e)] s) =
        requests s @ [upload_request f] \<and>
      requests (admin_run [SubmitBannerForm, AdminRespond (length (pending s)) (HttpError status e)] s) =
        requests s @ [upload_request f])"
proof (intro conjI impI)
  assume "in_image (modal s) = None"
  then show "requests (admin_step SubmitBannerForm s) =
        requests s @ [save_request (in_id (modal s) \<noteq> []) (form_payload s)]"
    by (simp add: submit_without_image)
next
  assume img: "in_image (modal s) = Some f"
  let ?s1 = "submit_banner_form s"
  have r1: "requests ?s1 = requests s @ [upload_request f]"
    and p1: "pending ?s1 = pending s @ [UploadCb (form_payload s) (in_id (modal s) \<noteq> [])]"
    using submit_with_image [OF img] by simp_all
  show "requests (admin_step SubmitBannerForm s) = requests s @ [upload_request f]"
    using r1 by simp
  have step: "\<And>r. admin_run [SubmitBannerForm, AdminRespond (length (pending s)) r] s =
      admin_deliver (UploadCb (form_payload s) (in_id (modal s) \<noteq> [])) r
        (?s1\<lparr>pending := pending s\<rparr>)"
    by (simp add: admin_run_def p1)
  show "requests (admin_run [SubmitBannerForm, AdminRespond (length (pending s)) (UploadOk path)] s) =
        requests s @ [upload_request f,
                      save_request (in_id (modal s) \<noteq> [])
                        ((form_payload s)\<lparr>bf_image_path := Some path\<rparr>)]"
    by (simp add: step admin_deliver_def on_upload_def saveBanner_def send_def r1
          save_request_def Let_def)
  show "requests (admin_run [SubmitBannerForm, AdminRespond (length (pending s)) (Refused e)] s) =
        requests s @ [upload_request f]"
    by (simp add: step admin_deliver_def on_upload_def requests_showAlert r1)
  show "requests (admin_run [SubmitBannerForm, AdminRespond (length (pending s)) (HttpError status e)] s) =
        requests s @ [upload_request f]"
    by (simp add: step admin_deliver_def on_upload_def requests_showAlert r1)
qed

definition sale_form :: banner_form where
  "sale_form = \<lparr>bf_title = js ''Spring sale'', bf_description = js ''Everything must go'',
     bf_link_url = js ''https://example.com/sale'', bf_position = js ''top'', bf_status = True,
     bf_id = None, bf_image_path = None\<rparr>"

definition banner7 :: banner where
  "banner7 = \<lparr>b_id = js ''7'', b_title = js ''Old title'', b_description = [],
     b_link_url = js ''https://example.com'', b_position = js ''bottom'', b_status = False,
     b_image_path = [], b_clicks = 3, b_created_at = js ''2024-05-01T10:00:00''\<rparr>"

definition new_banner_page :: admin_state where
  "new_banner_page =
     admin_run [ClickNav (js ''banners''), OpenBannerModal None, EditBannerForm sale_form None] page0"

definition edit_banner_page :: admin_state where
  "edit_banner_page =
     admin_run [ClickNav (js ''banners''), AdminRespond 2 (BannersOk [banner7]),
                OpenBannerModal (Some (js ''7'')), AdminRespond 2 (BannersOk [banner7]),
                EditBannerForm sale_form (Some (ImageFile (js ''sale.png'')))] page0"

lemmas deliver_defs = admin_deliver_def on_dashboard_def on_format_chart_def on_visitors_def
  on_banners_def on_downloads_def on_settings_def on_banner_data_def on_upload_def
  on_save_banner_def on_delete_banner_def on_save_settings_def on_session_def console_error_def
  updateDashboardStats_def updatePopularVideos_def updateFormatChart_def updateVisitorsTable_def
  updateBannersGrid_def updateDownloadsTable_def updateSettingsForm_def loadFormatChart_def
  closeBannerModal_def

theorem C7_upload_then_save_witness:
  "in_image (modal new_banner_page) = None \<and>
   requests (admin_step SubmitBannerForm new_banner_page) =
     requests new_banner_page @ [save_request False sale_form] \<and>
   in_image (modal edit_banner_page) = Some (ImageFile (js ''sale.png'')) \<and>
   requests (admin_run [SubmitBannerForm,
               AdminRespond (length (pending edit_banner_page)) (UploadOk (js ''/static/up/1.png''))]
             edit_banner_page) =
     requests edit_banner_page @
       [upload_request (ImageFile (js ''sale.png'')),
        save_request True (sale_form\<lparr>bf_id := Some (js ''7''),
                                      bf_image_path := Some (js ''/static/up/1.png'')\<rparr>)]"
proof -
  have n1: "in_image (modal new_banner_page) = None"
    and n2: "in_id (modal new_banner_page) = []"
    and n3: "form_payload new_banner_page = sale_form"
    unfolding new_banner_page_def page0_defs sale_form_def form_payload_def
    by (simp_all add: admin_defs banner_defs)
  have e1: "in_image (modal edit_banner_page) = Some (ImageFile (js ''sale.png''))"
    and e2: "in_id (modal edit_banner_page) = js ''7''"
    and e3: "form_payload edit_banner_page = sale_form\<lparr>bf_id := Some (js ''7'')\<rparr>"
    unfolding edit_banner_page_def page0_defs sale_form_def banner7_def form_payload_def
    by (simp_all add: admin_defs banner_defs deliver_defs js_def)
  have ne: "js ''7'' \<noteq> []" by (simp add: js_def)
  have a: "requests (admin_step SubmitBannerForm new_banner_page) =
     requests new_banner_page @ [save_request False sale_form]"
    using C7_upload_then_save [of new_banner_page] n1 n2 n3 by simp
  have b: "requests (admin_run [SubmitBannerForm,
               AdminRespond (length (pending edit_banner_page)) (UploadOk (js ''/static/up/1.png''))]
             edit_banner_page) =
     requests edit_banner_page @
       [upload_request (ImageFile (js ''sale.png'')),
        save_request True (sale_form\<lparr>bf_id := Some (js ''7''),
                                      bf_image_path := Some (js ''/static/up/1.png'')\<rparr>)]"
    using C7_upload_then_save [of edit_banner_page "ImageFile (js ''sale.png'')" "js ''/static/up/1.png''"]
      e1 e2 e3 ne by simp
  from n1 e1 a b show ?thesis by blast
qed

section \<open>A load that fails\<close>

definition loader_of_cb :: "admin_cb \<Rightarrow> loader option" where
  "loader_of_cb cb =
     (case cb of DashboardCb \<Rightarrow> Some Dashboard_loader
      | VisitorsCb \<Rightarrow> Some Visitors_loader
      | BannersCb \<Rightarrow> Some Banners_loader
      | DownloadsCb \<Rightarrow> Some Downloads_loader
      | SettingsCb \<Rightarrow> Some Settings_loader
      | _ \<Rightarrow> None)"

text \<open>A failed load: a network or HTTP error, or an envelope with \<open>success = false\<close>.\<close>

definition load_failed :: "admin_response \<Rightarrow> bool" where
  "load_failed r = (case r of HttpError status e \<Rightarrow> True | Refused e \<Rightarrow> True | _ \<Rightarrow> False)"

text \<open>
  C4, as the code has it. When the load of any of the five loaders fails, what the
  containers show stays as it was and no request is sent again; no notification is
  shown either: the alerts are untouched, an HTTP or network error is written to the
  console, and an envelope with \<open>success = false\<close> leaves no trace at all.
\<close>

theorem C4_stale_and_silent:
  "loader_of_cb cb = Some l \<Longrightarrow> load_failed r \<Longrightarrow>
     views (admin_deliver cb r s) = views s \<and>
     alerts (admin_deliver cb r s) = alerts s \<and>
     next_elem (admin_deliver cb r s) = next_elem s \<and>
     requests (admin_deliver cb r s) = requests s \<and>
     console_errors (admin_deliver cb r s) =
       (case r of HttpError status e \<Rightarrow> console_errors s @ [(l, e)] | _ \<Rightarrow> console_errors s)"
  by (cases cb; cases r)
     (simp_all add: loader_of_cb_def load_failed_def admin_deliver_def on_dashboard_def
        on_visitors_def on_banners_def on_downloads_def on_settings_def console_error_def)

theorem C4_stale_and_silent_witness:
  "loader_of_cb VisitorsCb = Some Visitors_loader \<and>
   load_failed (HttpError 500 (js ''Internal Server Error'')) \<and>
   views (admin_deliver VisitorsCb (HttpError 500 (js ''Internal Server Error'')) visitors_page) =
     views visitors_page \<and>
   alerts (admin_deliver VisitorsCb (HttpError 500 (js ''Internal Server Error'')) visitors_page) =
     alerts visitors_page \<and>
   console_errors (admin_deliver VisitorsCb (HttpError 500 (js ''Internal Server Error'')) visitors_page) =
     console_errors visitors_page @ [(Visitors_loader, js ''Internal Server Error'')]"
proof -
  have l: "loader_of_cb VisitorsCb = Some Visitors_loader" by (simp add: loader_of_cb_def)
  have f: "load_failed (HttpError 500 (js ''Internal Server Error''))" by (simp add: load_failed_def)
  from C4_stale_and_silent [OF l f, of visitors_page] l f show ?thesis by simp
qed

text \<open>The claim as it stands fails: the load of the visitors list fails, once with an
  HTTP error and once with \<open>success = false\<close>, and no alert is on the page.\<close>

theorem C4_no_notification_counterexample:
  "alerts (admin_run [ClickNav (js ''visitors''),
                      AdminRespond 2 (HttpError 500 (js ''Internal Server Error''))] page0) = [] \<and>
   alerts (admin_run [ClickNav (js ''visitors''),
                      AdminRespond 2 (Refused (js ''database down''))] page0) = []"
  unfolding page0_defs
  by (simp add: admin_defs admin_deliver_def on_visitors_def console_error_def js_def)

section \<open>Showing a section\<close>

text \<open>The sections as the spec lists them: the identifier, the title of the page, and
  the endpoint and callback of the loader.\<close>

definition spec_sections :: "(jsstring \<times> page_title \<times> jsstring \<times> admin_cb) list" where
  "spec_sections =
     [(js ''dashboard'', Dashboard_title, js ''/admin/api/stats'', DashboardCb),
      (js ''visitors'', Manage_visitors_title, js ''/admin/api/visitors'', VisitorsCb),
      (js ''banners'', Manage_banners_title, js ''/admin/api/banners'', BannersCb),
      (js ''downloads'', Download_stats_title, js ''/admin/api/downloads'', DownloadsCb),
      (js ''settings'', System_settings_title, js ''/admin/api/settings'', SettingsCb)]"

definition hide_all :: "content_section list \<Rightarrow> content_section list" where
  "hide_all cs = map (\<lambda>c. c\<lparr>section_active := False\<rparr>) cs"

lemma addClass_ids: "map section_id (addClass_active i cs) = map section_id cs"
  by (induction cs) auto

lemma filter_hidden: "filter section_active (hide_all cs) = []"
  by (induction cs) (auto simp: hide_all_def)

lemma addClass_on_hidden:
  "filter section_active (addClass_active i (hide_all cs)) =
     (if i \<in> section_id ` set cs then [\<lparr>section_id = i, section_active = True\<rparr>] else [])"
proof (induction cs)
  case Nil
  then show ?case by (simp add: hide_all_def)
next
  case (Cons c cs)
  have rest: "filter section_active (hide_all cs) = []" by (rule filter_hidden)
  show ?case
  proof (cases "section_id c = i")
    case True
    then show ?thesis using rest by (auto simp: hide_all_def)
  next
    case False
    then show ?thesis using Cons.IH by (auto simp: hide_all_def)
  qed
qed

lemma showSection_sections:
  "content_sections (showSection sec s) =
     addClass_active (sec @ js ''-section'') (hide_all (content_sections s))"
  by (simp add: showSection_def hide_all_def loadDashboardData_def loadVisitors_def
        loadBanners_def loadDownloads_def loadSettings_def send_def Let_def)

text \<open>
  C8. For each of the five sections, on a page that has the region of that section:
  after \<open>showSection\<close> the regions are those of before, exactly one of them is active and
  it is the region of the section, the section is the current one, the page title is
  the one of the table, and the request of the section's loader has been sent, its
  callback waiting.
\<close>

theorem C8_showSection:
  assumes known: "(sec, title, endpoint, cb) \<in> set spec_sections"
    and region: "sec @ js ''-section'' \<in> section_id ` set (content_sections s)"
  shows "filter section_active (content_sections (showSection sec s)) =
           [\<lparr>section_id = sec @ js ''-section'', section_active = True\<rparr>] \<and>
         map section_id (content_sections (showSection sec s)) = map section_id (content_sections s) \<and>
         currentSection (showSection sec s) = sec \<and>
         page_title (showSection sec s) = title \<and>
         requests (showSection sec s) = requests s @ [get_request endpoint] \<and>
         pending (showSection sec s) = pending s @ [cb]"
proof (intro conjI)
  show "filter section_active (content_sections (showSection sec s)) =
           [\<lparr>section_id = sec @ js ''-section'', section_active = True\<rparr>]"
    using region by (simp add: showSection_sections addClass_on_hidden)
  show "map section_id (content_sections (showSection sec s)) = map section_id (content_sections s)"
    by (simp add: showSection_sections addClass_ids hide_all_def comp_def)
  from known have cases:
    "(sec, title, endpoint, cb) = (js ''dashboard'', Dashboard_title, js ''/admin/api/stats'', DashboardCb) \<or>
     (sec, title, endpoint, cb) = (js ''visitors'', Manage_visitors_title, js ''/admin/api/visitors'', VisitorsCb) \<or>
     (sec, title, endpoint, cb) = (js ''banners'', Manage_banners_title, js ''/admin/api/banners'', BannersCb) \<or>
     (sec, title, endpoint, cb) = (js ''downloads'', Download_stats_title, js ''/admin/api/downloads'', DownloadsCb) \<or>
     (sec, title, endpoint, cb) = (js ''settings'', System_settings_title, js ''/admin/api/settings'', SettingsCb)"
    by (simp add: spec_sections_def)
  then show "currentSection (showSection sec s) = sec"
    by (elim disjE) (simp_all add: admin_defs js_def)
  from cases show "page_title (showSection sec s) = title"
    by (elim disjE) (simp_all add: admin_defs js_def)
  from cases show "requests (showSection sec s) = requests s @ [get_request endpoint]"
    by (elim disjE) (simp_all add: admin_defs get_request_def js_def)
  from cases show "pending (showSection sec s) = pending s @ [cb]"
    by (elim disjE) (simp_all add: admin_defs js_def)
qed

theorem C8_showSection_witness:
  "(js ''banners'', Manage_banners_title, js ''/admin/api/banners'', BannersCb) \<in> set spec_sections \<and>
   js ''banners'' @ js ''-section'' \<in> section_id ` set (content_sections page0) \<and>
   filter section_active (content_sections (showSection (js ''banners'') page0)) =
     [\<lparr>section_id = js ''banners'' @ js ''-section'', section_active = True\<rparr>] \<and>
   page_title (showSection (js ''banners'') page0) = Manage_banners_title \<and>
   requests (showSection (js ''banners'') page0) =
     requests page0 @ [get_request (js ''/admin/api/banners'')] \<and>
   pending (showSection (js ''banners'') page0) = pending page0 @ [BannersCb]"
proof -
  have k: "(js ''banners'', Manage_banners_title, js ''/admin/api/banners'', BannersCb) \<in> set spec_sections"
    by (simp add: spec_sections_def)
  have r: "js ''banners'' @ js ''-section'' \<in> section_id ` set (content_sections page0)"
    by (simp add: page0_defs admin_defs js_def)
  from C8_showSection [OF k r] k r show ?thesis by blast
qed

section \<open>Blocking the three actions of the download form\<close>

text \<open>An action is blocked with an error when it sends nothing, leaves no callback
  waiting, and leaves exactly one alert: of the error class, with the given text,
  created at this moment.\<close>

definition blocked_with_error :: "fixed_msg \<Rightarrow> main_state \<Rightarrow> main_state \<Rightarrow> bool" where
  "blocked_with_error m s s' =
     (requests s' = requests s \<and> pending s' = pending s \<and>
      (case alerts s' of
         [a] \<Rightarrow> alert_class a = js ''alert-error'' \<and> alert_message a = Fixed m \<and>
                alert_shown_at a = now s \<and> \<not> alert_fading a
       | _ \<Rightarrow> False))"

definition example_video :: video_info where
  "example_video = \<lparr>vi_title = js ''Clip'', vi_uploader = js ''Someone'', vi_duration = 95,
     vi_view_count = 1200, vi_thumbnail = js ''https://i.ytimg.com/vi/abc/0.jpg''\<rparr>"

definition vietnamese :: subtitle where
  "vietnamese = \<lparr>sub_code = js ''vi'', sub_name = js ''Vietnamese'', sub_type = js ''manual''\<rparr>"

text \<open>A page whose three buttons start disabled.\<close>

definition form0 :: main_state where
  "form0 = main_init [] (js ''en'') [(js ''en'', js ''English'')] True True"

text \<open>The user types the address of another site.\<close>

definition fresh_bad_url_state :: main_state where
  "fresh_bad_url_state = main_run [TypeUrl (js ''https://example.com/watch?v=abc'')] form0"

text \<open>The user gets the info of a video, selects a language, then overwrites the
  address with one of another site.\<close>

definition stale_url_state :: main_state where
  "stale_url_state =
     main_run [TypeUrl (js ''https://www.youtube.com/watch?v=abc''), ClickGetInfo,
               Respond 0 (VideoInfoOk example_video [vietnamese]),
               SetLanguage (js ''vi''),
               TypeUrl (js ''https://example.com/watch?v=abc'')]
       form0"

lemmas main_defs = main_run_def main_init_def click_get_info_def click_download_def
  click_preview_def click_clear_def getVideoInfo_def downloadSubtitle_def previewSubtitle_def
  showLoading_def hideLoading_def updateLanguageOptions_def main_showAlert_def setTimeout_def
  send_def url_input_def language_change_def Let_def

lemmas pattern_defs = isValidYouTubeUrl_def youtubeRegex_def seq_def opt_def alt_def lit_def
  startsWith_def dot_plus_end_def is_line_terminator_def trim_def is_js_whitespace_def js_def

lemma main_showAlert_error_blocked:
  "blocked_with_error m s (main_showAlert (Fixed m) (js ''error'') s)"
  by (simp add: blocked_with_error_def main_showAlert_def setTimeout_def Let_def)

lemma get_info_blocked:
  assumes "\<not> youtube_shaped (trim (youtube_url s))"
  shows "blocked_with_error
           (if trim (youtube_url s) = [] then Enter_youtube_url else Invalid_youtube_url)
           s (click_get_info s)"
  using assms
  by (simp add: click_get_info_def isValidYouTubeUrl_shaped main_showAlert_error_blocked Let_def)

lemma typed_bad_url_disables:
  assumes "\<not> youtube_shaped (trim u)"
  shows "get_info_disabled (main_step (TypeUrl u) s)"
  using assms by (simp add: url_input_def isValidYouTubeUrl_shaped Let_def)

lemma typed_url_kept: "youtube_url (main_step (TypeUrl u) s) = u"
  by (simp add: url_input_def Let_def)

text \<open>
  C3, as the code has it. Write \<open>url\<close> for the trimmed value of the address field.

  \<^item> When \<open>url\<close> has not the shape of a YouTube address (an optional \<open>http://\<close> or
    \<open>https://\<close>, an optional \<open>www.\<close>, the host \<open>youtube.com\<close> or \<open>youtu.be\<close>, a slash
    and a non-empty rest on one line), the get-info handler, when it runs, sends nothing
    and shows an error. It runs on Enter; on a mouse click it runs when the button is
    not disabled, and a click on the disabled button changes nothing at all.
  \<^item> Typing an address of that kind disables the button, so that a click after it
    changes nothing: no request, and no error either.
  \<^item> When \<open>url\<close> has that shape the handler sends the request for it.
  \<^item> The download and preview handlers do not look at the address. With no video
    info loaded they send nothing and show an error, when they run (here too a click
    on a disabled button changes nothing).
  \<^item> With a video info loaded they send their request, carrying \<open>url\<close> whatever it
    is.
\<close>

theorem C3_blocked_when_handler_runs:
  "(\<not> youtube_shaped (trim (youtube_url s)) \<longrightarrow>
      blocked_with_error
        (if trim (youtube_url s) = [] then Enter_youtube_url else Invalid_youtube_url)
        s (click_get_info s) \<and>
      blocked_with_error
        (if trim (youtube_url s) = [] then Enter_youtube_url else Invalid_youtube_url)
        s (main_step PressEnter s) \<and>
      (if get_info_disabled s then main_step ClickGetInfo s = s
       else blocked_with_error
              (if trim (youtube_url s) = [] then Enter_youtube_url else Invalid_youtube_url)
              s (main_step ClickGetInfo s))) \<and>
   (\<not> youtube_shaped (trim u) \<longrightarrow>
      main_step ClickGetInfo (main_step (TypeUrl u) s) = main_step (TypeUrl u) s) \<and>
   (youtube_shaped (trim (youtube_url s)) \<longrightarrow>
      requests (click_get_info s) =
        requests s @ [\<lparr>req_url = js ''/get-video-info'', req_method = js ''POST'',
                       req_body = VideoInfoReq (trim (youtube_url s))\<rparr>]) \<and>
   (currentVideoInfo s = None \<longrightarrow>
      blocked_with_error Get_video_info_first s (click_download format s) \<and>
      blocked_with_error Get_video_info_first s (click_preview s) \<and>
      (if downloads_disabled s
       then main_step (ClickDownload format) s = s \<and> main_step ClickPreview s = s
       else blocked_with_error Get_video_info_first s (main_step (ClickDownload format) s) \<and>
            blocked_with_error Get_video_info_first s (main_step ClickPreview s))) \<and>
   (currentVideoInfo s \<noteq> None \<longrightarrow>
      requests (click_download format s) =
        requests s @ [\<lparr>req_url = js ''/download-subtitle'', req_method = js ''POST'',
                       req_body = DownloadReq (trim (youtube_url s)) format (source_language s)\<rparr>] \<and>
      requests (click_preview s) =
        requests s @ [\<lparr>req_url = js ''/preview-subtitle'', req_method = js ''POST'',
                       req_body = PreviewReq (trim (youtube_url s)) (source_language s)\<rparr>])"
proof (intro conjI impI)
  assume bad: "\<not> youtube_shaped (trim (youtube_url s))"
  show g: "blocked_with_error
        (if trim (youtube_url s) = [] then Enter_youtube_url else Invalid_youtube_url)
        s (click_get_info s)"
    using bad by (rule get_info_blocked)
  then show "blocked_with_error
        (if trim (youtube_url s) = [] then Enter_youtube_url else Invalid_youtube_url)
        s (main_step PressEnter s)" by simp
  from g show "if get_info_disabled s then main_step ClickGetInfo s = s
       else blocked_with_error
              (if trim (youtube_url s) = [] then Enter_youtube_url else Invalid_youtube_url)
              s (main_step ClickGetInfo s)" by simp
next
  assume "\<not> youtube_shaped (trim u)"
  then have "get_info_disabled (main_step (TypeUrl u) s)" by (rule typed_bad_url_disables)
  then show "main_step ClickGetInfo (main_step (TypeUrl u) s) = main_step (TypeUrl u) s"
    by (simp del: main_step.simps(1) add: main_step.simps(3))
next
  assume ok: "youtube_shaped (trim (youtube_url s))"
  then have "trim (youtube_url s) \<noteq> []" by (auto simp: youtube_shaped_def)
  with ok show "requests (click_get_info s) =
        requests s @ [\<lparr>req_url = js ''/get-video-info'', req_method = js ''POST'',
                       req_body = VideoInfoReq (trim (youtube_url s))\<rparr>]"
    by (simp add: click_get_info_def isValidYouTubeUrl_shaped getVideoInfo_def send_def
          showLoading_def Let_def)
next
  assume none: "currentVideoInfo s = None"
  show d: "blocked_with_error Get_video_info_first s (click_download format s)"
    using none by (simp add: click_download_def main_showAlert_error_blocked Let_def)
  show p: "blocked_with_error Get_video_info_first s (click_preview s)"
    using none by (simp add: click_preview_def main_showAlert_error_blocked Let_def)
  from d p show "if downloads_disabled s
       then main_step (ClickDownload format) s = s \<and> main_step ClickPreview s = s
       else blocked_with_error Get_video_info_first s (main_step (ClickDownload format) s) \<and>
            blocked_with_error Get_video_info_first s (main_step ClickPreview s)" by simp
next
  assume "currentVideoInfo s \<noteq> None"
  then obtain i where some: "currentVideoInfo s = Some i" by auto
  then show "requests (click_download format s) =
        requests s @ [\<lparr>req_url = js ''/download-subtitle'', req_method = js ''POST'',
                       req_body = DownloadReq (trim (youtube_url s)) format (source_language s)\<rparr>]"
    by (simp add: click_download_def downloadSubtitle_def send_def showLoading_def Let_def)
  from some show "requests (click_preview s) =
        requests s @ [\<lparr>req_url = js ''/preview-subtitle'', req_method = js ''POST'',
                       req_body = PreviewReq (trim (youtube_url s)) (source_language s)\<rparr>]"
    by (simp add: click_preview_def previewSubtitle_def send_def showLoading_def Let_def)
qed

text \<open>The example pages, evaluated.\<close>

lemma fresh_bad_url_state_eval:
  "youtube_url fresh_bad_url_state = js ''https://example.com/watch?v=abc''"
  "currentVideoInfo fresh_bad_url_state = None"
  "get_info_disabled fresh_bad_url_state" "downloads_disabled fresh_bad_url_state"
  "requests fresh_bad_url_state = []" "pending fresh_bad_url_state = []"
  "now fresh_bad_url_state = 0"
  unfolding fresh_bad_url_state_def form0_def by (simp_all add: main_defs pattern_defs)

lemma bad_address: "\<not> youtube_shaped (trim (js ''https://example.com/watch?v=abc''))"
  unfolding isValidYouTubeUrl_shaped [symmetric] by (simp add: pattern_defs)

lemma good_address: "youtube_shaped (trim (js ''https://www.youtube.com/watch?v=abc''))"
  unfolding isValidYouTubeUrl_shaped [symmetric] by (simp add: pattern_defs)

text \<open>The user types a YouTube address.\<close>

definition good_url_state :: main_state where
  "good_url_state =
     main_run [TypeUrl (js ''https://www.youtube.com/watch?v=abc'')] form0"

lemma good_url_state_eval:
  "youtube_url good_url_state = js ''https://www.youtube.com/watch?v=abc''"
  "requests good_url_state = []" "\<not> get_info_disabled good_url_state"
  unfolding good_url_state_def form0_def by (simp_all add: main_defs pattern_defs)

lemma stale_url_state_eval:
  "youtube_url stale_url_state = js ''https://example.com/watch?v=abc''"
  "currentVideoInfo stale_url_state = Some example_video"
  "source_language stale_url_state = js ''vi''"
  "\<not> downloads_disabled stale_url_state" "get_info_disabled stale_url_state"
  "alerts stale_url_state = []"
  "requests stale_url_state =
     [\<lparr>req_url = js ''/get-video-info'', req_method = js ''POST'',
       req_body = VideoInfoReq (js ''https://www.youtube.com/watch?v=abc'')\<rparr>]"
  unfolding stale_url_state_def form0_def by (simp_all add: main_defs pattern_defs)


text \<open>The statement at three pages: an address of another site typed into a fresh
  page, a YouTube address typed into a fresh page, and the page on which the info of
  a video was loaded before the address was overwritten.\<close>

theorem C3_blocked_when_handler_runs_witness:
  "\<not> youtube_shaped (trim (youtube_url fresh_bad_url_state)) \<and>
   currentVideoInfo fresh_bad_url_state = None \<and>
   blocked_with_error Invalid_youtube_url fresh_bad_url_state (click_get_info fresh_bad_url_state) \<and>
   blocked_with_error Invalid_youtube_url fresh_bad_url_state
     (main_step PressEnter fresh_bad_url_state) \<and>
   main_step ClickGetInfo fresh_bad_url_state = fresh_bad_url_state \<and>
   main_step ClickGetInfo (main_step (TypeUrl (js ''https://example.com/watch?v=abc'')) form0)
     = main_step (TypeUrl (js ''https://example.com/watch?v=abc'')) form0 \<and>
   blocked_with_error Get_video_info_first fresh_bad_url_state
     (click_download (js ''srt'') fresh_bad_url_state) \<and>
   blocked_with_error Get_video_info_first fresh_bad_url_state
     (click_preview fresh_bad_url_state) \<and>
   main_step (ClickDownload (js ''srt'')) fresh_bad_url_state = fresh_bad_url_state \<and>
   youtube_shaped (trim (youtube_url good_url_state)) \<and>
   requests (click_get_info good_url_state) =
     [\<lparr>req_url = js ''/get-video-info'', req_method = js ''POST'',
       req_body = VideoInfoReq (js ''https://www.youtube.com/watch?v=abc'')\<rparr>] \<and>
   currentVideoInfo stale_url_state \<noteq> None \<and>
   requests (click_download (js ''srt'') stale_url_state) =
     [\<lparr>req_url = js ''/get-video-info'', req_method = js ''POST'',
       req_body = VideoInfoReq (js ''https://www.youtube.com/watch?v=abc'')\<rparr>,
      \<lparr>req_url = js ''/download-subtitle'', req_method = js ''POST'',
       req_body = DownloadReq (js ''https://example.com/watch?v=abc'') (js ''srt'') (js ''vi'')\<rparr>]"
proof -
  have t: "trim (js ''https://example.com/watch?v=abc'') = js ''https://example.com/watch?v=abc''"
    "trim (js ''https://www.youtube.com/watch?v=abc'') = js ''https://www.youtube.com/watch?v=abc''"
    by (simp_all add: trim_def is_js_whitespace_def is_line_terminator_def js_def)
  have ne: "js ''https://example.com/watch?v=abc'' \<noteq> []" by (simp add: js_def)
  note bad = bad_address [unfolded t] and good = good_address [unfolded t]
  from C3_blocked_when_handler_runs
         [of fresh_bad_url_state "js ''https://example.com/watch?v=abc''" "js ''srt''"]
       C3_blocked_when_handler_runs
         [of form0 "js ''https://example.com/watch?v=abc''" "js ''srt''"]
  have a: "blocked_with_error Invalid_youtube_url fresh_bad_url_state (click_get_info fresh_bad_url_state)"
    "blocked_with_error Invalid_youtube_url fresh_bad_url_state
       (main_step PressEnter fresh_bad_url_state)"
    "main_step ClickGetInfo fresh_bad_url_state = fresh_bad_url_state"
    "main_step ClickGetInfo (main_step (TypeUrl (js ''https://example.com/watch?v=abc'')) form0)
       = main_step (TypeUrl (js ''https://example.com/watch?v=abc'')) form0"
    "blocked_with_error Get_video_info_first fresh_bad_url_state
       (click_download (js ''srt'') fresh_bad_url_state)"
    "blocked_with_error Get_video_info_first fresh_bad_url_state
       (click_preview fresh_bad_url_state)"
    "main_step (ClickDownload (js ''srt'')) fresh_bad_url_state = fresh_bad_url_state"
    using bad ne by (simp_all only: fresh_bad_url_state_eval t if_True if_False simp_thms)
  from C3_blocked_when_handler_runs [of good_url_state "[]" "js ''srt''"]
  have b: "requests (click_get_info good_url_state) =
     [\<lparr>req_url = js ''/get-video-info'', req_method = js ''POST'',
       req_body = VideoInfoReq (js ''https://www.youtube.com/watch?v=abc'')\<rparr>]"
    using good by (simp only: good_url_state_eval t simp_thms append_Nil)
  from C3_blocked_when_handler_runs [of stale_url_state "[]" "js ''srt''"]
  have c: "requests (click_download (js ''srt'') stale_url_state) =
     [\<lparr>req_url = js ''/get-video-info'', req_method = js ''POST'',
       req_body = VideoInfoReq (js ''https://www.youtube.com/watch?v=abc'')\<rparr>,
      \<lparr>req_url = js ''/download-subtitle'', req_method = js ''POST'',
       req_body = DownloadReq (js ''https://example.com/watch?v=abc'') (js ''srt'') (js ''vi'')\<rparr>]"
    by (simp add: stale_url_state_eval t)
  show ?thesis
    using a b c bad good
    by (simp only: fresh_bad_url_state_eval good_url_state_eval stale_url_state_eval t simp_thms
          option.distinct not_False_eq_True)
qed

text \<open>The claim as it stands fails: with the info of a video loaded and the address
  replaced by one of another site, a click on a download button sends its request,
  with that address, and shows no error; so does a click on the preview button.\<close>

theorem C3_download_not_blocked_counterexample:
  "\<not> youtube_shaped (trim (youtube_url stale_url_state)) \<and>
   requests (main_step (ClickDownload (js ''srt'')) stale_url_state) =
     requests stale_url_state @
     [\<lparr>req_url = js ''/download-subtitle'', req_method = js ''POST'',
       req_body = DownloadReq (js ''https://example.com/watch?v=abc'') (js ''srt'') (js ''vi'')\<rparr>] \<and>
   alerts (main_step (ClickDownload (js ''srt'')) stale_url_state) = [] \<and>
   requests (main_step ClickPreview stale_url_state) =
     requests stale_url_state @
     [\<lparr>req_url = js ''/preview-subtitle'', req_method = js ''POST'',
       req_body = PreviewReq (js ''https://example.com/watch?v=abc'') (js ''vi'')\<rparr>] \<and>
   alerts (main_step ClickPreview stale_url_state) = []"
proof -
  have t: "trim (js ''https://example.com/watch?v=abc'') = js ''https://example.com/watch?v=abc''"
    by (simp add: trim_def is_js_whitespace_def is_line_terminator_def js_def)
  have "\<not> youtube_shaped (trim (youtube_url stale_url_state))"
    using bad_address by (simp add: stale_url_state_eval)
  then show ?thesis
    by (simp add: stale_url_state_eval t click_download_def click_preview_def
          downloadSubtitle_def previewSubtitle_def send_def showLoading_def Let_def)
qed

section \<open>The CSV export\<close>

text \<open>
  The text that \<open>downloadCSV\<close> writes has no quoting, so it is read back the plain way:
  a row ends at a line feed, a cell at a comma. \<open>split_on\<close> is
  \<open>String.prototype.split\<close> with a separator of one code unit; \<open>csv_rows\<close> are the
  rows of cells of a text.
\<close>

fun split_on :: "jschar \<Rightarrow> jsstring \<Rightarrow> jsstring list" where
  "split_on c [] = [[]]"
| "split_on c (x # xs) =
     (if x = c then [] # split_on c xs
      else (case split_on c xs of y # ys \<Rightarrow> (x # y) # ys | [] \<Rightarrow> [[x]]))"

definition csv_rows :: "jsstring \<Rightarrow> jsstring list list" where
  "csv_rows txt = map (split_on 0x2C) (split_on 0x0A txt)"

text \<open>A table the export can write faithfully: it has a header cell, no header cell
  holds a comma or a line feed, and every visible body row has a cell and holds no
  line feed.\<close>

definition plain_header :: "html_table \<Rightarrow> bool" where
  "plain_header t =
     (thead_cells t \<noteq> [] \<and> list_all (\<lambda>h. 0x2C \<notin> set h \<and> 0x0A \<notin> set h) (thead_cells t))"

definition plain_rows :: "html_table \<Rightarrow> bool" where
  "plain_rows t =
     list_all (\<lambda>r. row_cells r \<noteq> [] \<and> list_all (\<lambda>c. 0x0A \<notin> set c) (row_cells r))
       (filter row_visible (tbody_rows t))"

lemma split_on_not_Nil: "split_on c xs \<noteq> []"
  by (induction xs) (auto split: list.splits)

lemma split_on_free: "c \<notin> set x \<Longrightarrow> split_on c x = [x]"
  by (induction x) auto

lemma split_on_append: "c \<notin> set x \<Longrightarrow> split_on c (x @ c # r) = x # split_on c r"
  by (induction x) auto

declare split_on.simps [simp del]

lemma split_on_join:
  assumes "xs \<noteq> []" and "\<forall>x\<in>set xs. c \<notin> set x"
  shows "split_on c (join [c] xs) = xs"
  using assms
proof (induction "[c]" xs rule: join.induct)
  case 1
  then show ?case by simp
next
  case (2 x)
  then show ?case by (simp add: split_on_free)
next
  case (3 x y ys)
  then have "split_on c (join [c] (y # ys)) = y # ys" by simp
  moreover have "c \<notin> set x" using 3 by simp
  ultimately show ?case by (simp add: split_on_append)
qed

lemma set_join: "set (join sep xs) \<subseteq> set sep \<union> \<Union> (set ` set xs)"
  by (induction sep xs rule: join.induct) auto

lemma replace_commas_free: "0x2C \<notin> set (replace_commas t)"
  by (induction t) (auto simp: replace_commas_def)

lemma replace_commas_line_feed: "0x0A \<in> set (replace_commas t) \<longleftrightarrow> 0x0A \<in> set t"
  by (induction t) (auto simp: replace_commas_def)

lemma line_free:
  assumes "\<forall>c\<in>set row. (0x0A :: jschar) \<notin> set c"
  shows "0x0A \<notin> set (join [0x2C] row)"
proof
  assume "0x0A \<in> set (join [0x2C] row)"
  then have "(0x0A :: jschar) \<in> set [0x2C] \<union> \<Union> (set ` set row)"
    using set_join [of "[0x2C]" row] by blast
  then show False using assms by auto
qed

lemma csv_rows_csvContent:
  assumes ne: "data \<noteq> []"
    and rows: "\<forall>row\<in>set data. row \<noteq> [] \<and> (\<forall>c\<in>set row. 0x2C \<notin> set c \<and> 0x0A \<notin> set c)"
  shows "csv_rows (csvContent data) = data"
proof -
  have "\<forall>l\<in>set (map (join [0x2C]) data). (0x0A :: jschar) \<notin> set l"
  proof
    fix l assume "l \<in> set (map (join [0x2C]) data)"
    then obtain row where row: "row \<in> set data" and l: "l = join [0x2C] row" by auto
    have "\<forall>c\<in>set row. (0x0A :: jschar) \<notin> set c" using rows row by blast
    then show "0x0A \<notin> set l" unfolding l by (rule line_free)
  qed
  then have "split_on 0x0A (join [0x0A] (map (join [0x2C]) data)) = map (join [0x2C]) data"
    using ne by (intro split_on_join) simp_all
  moreover have "map (split_on 0x2C \<circ> join [0x2C]) data = data"
    using rows by (intro map_idI) (simp add: split_on_join)
  ultimately show ?thesis by (simp add: csv_rows_def csvContent_def)
qed

lemma replace_commas_nth:
  "length (replace_commas c) = length c"
  "i < length c \<Longrightarrow> replace_commas c ! i = (if c ! i = 0x2C then 0x3B else c ! i)"
  by (simp_all add: replace_commas_def)

lemma csv_rows_export:
  assumes "plain_header t" "plain_rows t"
  shows "csv_rows (csvContent (getTableData t)) =
     thead_cells t #
     map (\<lambda>r. map (map (\<lambda>c. if c = 0x2C then 0x3B else c)) (row_cells r))
       (filter row_visible (tbody_rows t))"
proof -
  have "csv_rows (csvContent (getTableData t)) = getTableData t"
  proof (rule csv_rows_csvContent)
    show "getTableData t \<noteq> []" by (simp add: getTableData_def)
    show "\<forall>row\<in>set (getTableData t).
        row \<noteq> [] \<and> (\<forall>c\<in>set row. 0x2C \<notin> set c \<and> 0x0A \<notin> set c)"
      using assms
      by (auto simp: getTableData_def plain_header_def plain_rows_def list_all_iff
            replace_commas_free replace_commas_line_feed)
  qed
  also have "\<dots> = thead_cells t #
     map (\<lambda>r. map (map (\<lambda>c. if c = 0x2C then 0x3B else c)) (row_cells r))
       (filter row_visible (tbody_rows t))"
    by (simp add: getTableData_def replace_commas_def [abs_def])
  finally show ?thesis .
qed

lemma exported_visitors:
  "exported (exportData (js ''visitors'') t d s) =
     exported s @ [(js ''visitors_export.csv'', csvContent (getTableData t))]"
  by (simp add: exportData_def downloadCSV_def exported_showAlert getTableData_def)

lemma exported_downloads:
  "exported (exportData (js ''downloads'') v t s) =
     exported s @ [(js ''downloads_export.csv'', csvContent (getTableData t))]"
proof -
  have ne: "js ''downloads'' \<noteq> js ''visitors''" by (simp add: js_def)
  show ?thesis
    using ne by (simp add: exportData_def downloadCSV_def exported_showAlert getTableData_def)
qed

text \<open>
  C5, with the conditions it needs. On a table that has a header cell, whose header
  cells hold no comma and no line feed, and whose visible body rows have a cell each
  and hold no line feed: the export of the visitors table and of the downloads table
  saves the text \<open>csvContent (getTableData t)\<close>; read back, the rows of that text are
  the header cells as they are, followed by one row per visible body row, in order,
  each cell with every comma turned into a semicolon and every other code unit kept.
  So the first row is the header and the number of data rows is the number of visible
  rows.
\<close>

theorem C5_export_csv:
  assumes "plain_header t" and "plain_rows t"
  shows "exported (exportData (js ''visitors'') t d s) =
           exported s @ [(js ''visitors_export.csv'', csvContent (getTableData t))] \<and>
         exported (exportData (js ''downloads'') v t s) =
           exported s @ [(js ''downloads_export.csv'', csvContent (getTableData t))] \<and>
         csv_rows (csvContent (getTableData t)) =
           thead_cells t #
           map (\<lambda>r. map (map (\<lambda>c. if c = 0x2C then 0x3B else c)) (row_cells r))
             (filter row_visible (tbody_rows t)) \<and>
         hd (csv_rows (csvContent (getTableData t))) = thead_cells t \<and>
         length (tl (csv_rows (csvContent (getTableData t)))) =
           length (filter row_visible (tbody_rows t))"
  using csv_rows_export [OF assms] by (simp add: exported_visitors exported_downloads)

text \<open>A table with a hidden row and with commas in the cells of its visible rows.\<close>

definition agents_table :: html_table where
  "agents_table =
     \<lparr>thead_cells = [js ''IP'', js ''Agent''],
      tbody_rows =
        [\<lparr>row_visible = True, row_cells = [js ''10.0.0.1'', js ''Gecko, like KHTML'']\<rparr>,
         \<lparr>row_visible = False, row_cells = [js ''10.0.0.2'', js ''curl'']\<rparr>,
         \<lparr>row_visible = True, row_cells = [js ''10.0.0.3'', js '',,'']\<rparr>]\<rparr>"

theorem C5_export_csv_witness:
  "plain_header agents_table \<and> plain_rows agents_table \<and>
   csvContent (getTableData agents_table) =
     js ''IP,Agent'' @ [0x0A] @ js ''10.0.0.1,Gecko; like KHTML'' @ [0x0A] @ js ''10.0.0.3,;;'' \<and>
   csv_rows (csvContent (getTableData agents_table)) =
     [[js ''IP'', js ''Agent''],
      [js ''10.0.0.1'', js ''Gecko; like KHTML''],
      [js ''10.0.0.3'', js '';;'']] \<and>
   length (tl (csv_rows (csvContent (getTableData agents_table)))) = 2"
proof -
  have h: "plain_header agents_table" "plain_rows agents_table"
    by (simp_all add: plain_header_def plain_rows_def agents_table_def js_def)
  have content: "csvContent (getTableData agents_table) =
     js ''IP,Agent'' @ [0x0A] @ js ''10.0.0.1,Gecko; like KHTML'' @ [0x0A] @ js ''10.0.0.3,;;''"
    by (simp add: csvContent_def getTableData_def agents_table_def replace_commas_def js_def)
  have f: "thead_cells agents_table = [js ''IP'', js ''Agent'']"
    "filter row_visible (tbody_rows agents_table) =
       [\<lparr>row_visible = True, row_cells = [js ''10.0.0.1'', js ''Gecko, like KHTML'']\<rparr>,
        \<lparr>row_visible = True, row_cells = [js ''10.0.0.3'', js '',,'']\<rparr>]"
    by (simp_all add: agents_table_def)
  from C5_export_csv [OF h, of d s v]
  have "csv_rows (csvContent (getTableData agents_table)) =
     [[js ''IP'', js ''Agent''],
      [js ''10.0.0.1'', js ''Gecko; like KHTML''],
      [js ''10.0.0.3'', js '';;'']]"
    unfolding f by (simp add: js_def)
  with h content show ?thesis by simp
qed

text \<open>Without the conditions the claim fails. A visible row with a line feed in a
  cell becomes two rows of the text, and a comma in a header cell, which
  \<open>getTableData\<close> does not replace, splits that cell in two.\<close>

definition multiline_table :: html_table where
  "multiline_table =
     \<lparr>thead_cells = [js ''Title'', js ''Count''],
      tbody_rows = [\<lparr>row_visible = True, row_cells = [js ''a'' @ [0x0A] @ js ''b'', js ''7'']\<rparr>]\<rparr>"

definition comma_header_table :: html_table where
  "comma_header_table =
     \<lparr>thead_cells = [js ''Last, first'', js ''Count''],
      tbody_rows = [\<lparr>row_visible = True, row_cells = [js ''a'', js ''7'']\<rparr>]\<rparr>"

theorem C5_line_feed_and_header_comma_counterexample:
  "length (filter row_visible (tbody_rows multiline_table)) = 1 \<and>
   csv_rows (csvContent (getTableData multiline_table)) =
     [[js ''Title'', js ''Count''], [js ''a''], [js ''b'', js ''7'']] \<and>
   length (tl (csv_rows (csvContent (getTableData multiline_table)))) = 2 \<and>
   thead_cells comma_header_table = [js ''Last, first'', js ''Count''] \<and>
   hd (csv_rows (csvContent (getTableData comma_header_table))) =
     [js ''Last'', js '' first'', js ''Count'']"
  by (simp add: csv_rows_def csvContent_def getTableData_def multiline_table_def
        comma_header_table_def replace_commas_def js_def split_on.simps)

section \<open>What holds of the alerts and timeouts in every state\<close>

text \<open>
  The statements about alerts, about the session probe and about the auto-save hold of
  the states the pages can reach. They rest on an invariant of the alerts and of the
  pending timeouts.

  A pending timeout is in order when its handle was given out, it is not overdue by
  more than the present moment, and, when it belongs to an alert that is displayed, it
  is due five seconds after the alert was created (the start of the fade-out) or a
  fade-out later (the removal). A displayed alert is in order when its element was
  created, not in the future, and its next timeout is pending: the start of the
  fade-out while it does not fade, the removal while it does, and then the five
  seconds have passed.
\<close>

definition timer_ok :: "nat \<Rightarrow> nat \<Rightarrow> nat \<Rightarrow> alert_el list \<Rightarrow> timer \<Rightarrow> bool" where
  "timer_ok nw nt ne als t \<longleftrightarrow>
     tid t < nt \<and> nw \<le> due t \<and>
     (\<forall>a. act t = DismissAlert a \<longrightarrow>
        a < ne \<and> (\<forall>x\<in>set als. alert_id x = a \<longrightarrow> due t = alert_shown_at x + 5000)) \<and>
     (\<forall>a. act t = RemoveAlert a \<longrightarrow>
        a < ne \<and> (\<forall>x\<in>set als. alert_id x = a \<longrightarrow> due t = alert_shown_at x + 5000 + fade_duration))"

definition alert_ok :: "nat \<Rightarrow> nat \<Rightarrow> timer list \<Rightarrow> alert_el \<Rightarrow> bool" where
  "alert_ok nw ne ts x \<longleftrightarrow>
     alert_id x < ne \<and> alert_shown_at x \<le> nw \<and>
     (if alert_fading x
      then alert_shown_at x + 5000 \<le> nw \<and> (\<exists>t\<in>set ts. act t = RemoveAlert (alert_id x))
      else (\<exists>t\<in>set ts. act t = DismissAlert (alert_id x)))"

text \<open>The handles of the pending timeouts are distinct and each timeout is in order;
  at most one alert is displayed and it is in order; a page is settled when every
  timeout that was due has run.\<close>

definition timers_ok :: "('cb, 'a) page_scheme \<Rightarrow> bool" where
  "timers_ok s \<longleftrightarrow>
     distinct (map tid (timers s)) \<and>
     (\<forall>t\<in>set (timers s). timer_ok (now s) (next_timer s) (next_elem s) (alerts s) t)"

definition alerts_ok :: "('cb, 'a) page_scheme \<Rightarrow> bool" where
  "alerts_ok s \<longleftrightarrow>
     length (alerts s) \<le> 1 \<and>
     (\<forall>x\<in>set (alerts s). alert_ok (now s) (next_elem s) (timers s) x)"

definition settled :: "('cb, 'a) page_scheme \<Rightarrow> bool" where
  "settled s \<longleftrightarrow> (\<forall>t\<in>set (timers s). now s < due t)"

definition page_inv :: "('cb, 'a) page_scheme \<Rightarrow> bool" where
  "page_inv s \<longleftrightarrow> timers_ok s \<and> alerts_ok s"

lemma earliest_None: "earliest ts = None \<longleftrightarrow> ts = []"
  by (cases ts) (auto split: option.splits)

lemma earliest_le: "earliest ts = Some t \<Longrightarrow> u \<in> set ts \<Longrightarrow> due t \<le> due u"
  by (induction ts arbitrary: t) (fastforce simp: earliest_None split: option.splits if_splits)+

lemma page_inv_same:
  assumes "now s' = now s" "timers s' = timers s" "next_timer s' = next_timer s"
    "alerts s' = alerts s" "next_elem s' = next_elem s"
  shows "page_inv s' = page_inv s" "settled s' = settled s"
  using assms by (simp_all add: page_inv_def timers_ok_def alerts_ok_def settled_def)

text \<open>\<open>showAlert\<close> keeps the invariant: whatever was displayed, one new alert is, and its
  timeout is pending.\<close>

lemma timer_ok_fresh_alert:
  assumes "timer_ok nw nt ne als t"
  shows "timer_ok nw (Suc nt) (Suc ne) [el\<lparr>alert_id := ne\<rparr>] t"
  using assms unfolding timer_ok_def by (cases "act t") auto

lemma page_inv_alert:
  assumes inv: "page_inv s"
    and nw: "now s' = now s"
    and tm: "timers s' = timers s @ [\<lparr>tid = next_timer s, due = now s + 5000, act = DismissAlert (next_elem s)\<rparr>]"
    and nt: "next_timer s' = Suc (next_timer s)"
    and al: "\<exists>el. alerts s' = [el\<lparr>alert_id := next_elem s\<rparr>] \<and> alert_shown_at el = now s \<and> \<not> alert_fading el"
    and ne: "next_elem s' = Suc (next_elem s)"
  shows "page_inv s'"
proof -
  from al obtain el where el: "alerts s' = [el\<lparr>alert_id := next_elem s\<rparr>]"
    and sh: "alert_shown_at el = now s" and nf: "\<not> alert_fading el" by blast
  let ?new = "\<lparr>tid = next_timer s, due = now s + 5000, act = DismissAlert (next_elem s)\<rparr>"
  have t: "timers_ok s" using inv by (simp add: page_inv_def)
  have old: "timer_ok (now s) (next_timer s) (next_elem s) (alerts s) u" if "u \<in> set (timers s)" for u
    using t that by (simp add: timers_ok_def)
  have fresh: "next_timer s \<notin> tid ` set (timers s)"
  proof
    assume "next_timer s \<in> tid ` set (timers s)"
    then obtain u where u: "u \<in> set (timers s)" "tid u = next_timer s" by auto
    from old [OF u(1)] u(2) show False by (simp add: timer_ok_def)
  qed
  have "timers_ok s'"
    unfolding timers_ok_def nw tm nt el ne
  proof (rule conjI)
    show "distinct (map tid (timers s @ [?new]))"
      using t fresh by (simp add: timers_ok_def)
    show "\<forall>u\<in>set (timers s @ [?new]).
        timer_ok (now s) (Suc (next_timer s)) (Suc (next_elem s)) [el\<lparr>alert_id := next_elem s\<rparr>] u"
    proof
      fix u assume "u \<in> set (timers s @ [?new])"
      then consider "u \<in> set (timers s)" | "u = ?new" by auto
      then show "timer_ok (now s) (Suc (next_timer s)) (Suc (next_elem s)) [el\<lparr>alert_id := next_elem s\<rparr>] u"
      proof cases
        case 1
        then show ?thesis using old timer_ok_fresh_alert by blast
      next
        case 2
        then show ?thesis using sh by (simp add: timer_ok_def)
      qed
    qed
  qed
  moreover have "alerts_ok s'"
    unfolding alerts_ok_def nw tm el ne using sh nf by (simp add: alert_ok_def)
  ultimately show ?thesis by (simp add: page_inv_def)
qed

lemma settled_alert:
  assumes "settled s" "now s' = now s"
    and "timers s' = timers s @ [\<lparr>tid = next_timer s, due = now s + 5000, act = DismissAlert (next_elem s)\<rparr>]"
  shows "settled s'"
  using assms by (auto simp: settled_def)

text \<open>The page as the callback of the timeout \<open>t\<close> finds it: \<open>t\<close> has left the
  pending ones and the clock is at its due time.\<close>

definition base :: "timer \<Rightarrow> ('cb, 'a) page_scheme \<Rightarrow> ('cb, 'a) page_scheme" where
  "base t s = s\<lparr>timers := filter (\<lambda>u. tid u \<noteq> tid t) (timers s), now := max (now s) (due t)\<rparr>"

lemma base_fields:
  "timers (base t s) = filter (\<lambda>u. tid u \<noteq> tid t) (timers s)"
  "now (base t s) = max (now s) (due t)" "alerts (base t s) = alerts s"
  "next_timer (base t s) = next_timer s" "next_elem (base t s) = next_elem s"
  by (simp_all add: base_def)

lemma other_timer_stays:
  assumes "distinct (map tid ts)" "t \<in> set ts" "u \<in> set ts" "act u \<noteq> act t"
  shows "u \<in> set (filter (\<lambda>v. tid v \<noteq> tid t) ts)"
proof -
  have "u \<noteq> t" using assms(4) by auto
  then have "tid u \<noteq> tid t" using assms(1-3) by (auto simp: distinct_map inj_on_def)
  then show ?thesis using assms(3) by simp
qed

lemma timers_ok_base:
  assumes t: "timers_ok s" and e: "earliest (timers s) = Some t"
  shows "timers_ok (base t s)" and "now (base t s) = due t"
proof -
  have mem: "t \<in> set (timers s)" using e by (rule earliest_mem)
  have old: "timer_ok (now s) (next_timer s) (next_elem s) (alerts s) u" if "u \<in> set (timers s)" for u
    using t that by (simp add: timers_ok_def)
  have "now s \<le> due t" using old [OF mem] by (simp add: timer_ok_def)
  then show n: "now (base t s) = due t" by (simp add: base_fields)
  show "timers_ok (base t s)"
    unfolding timers_ok_def base_fields(1,3,4,5) n
  proof (rule conjI)
    show "distinct (map tid (filter (\<lambda>u. tid u \<noteq> tid t) (timers s)))"
      using t by (simp add: timers_ok_def distinct_map_filter)
    show "\<forall>u\<in>set (filter (\<lambda>u. tid u \<noteq> tid t) (timers s)).
        timer_ok (due t) (next_timer s) (next_elem s) (alerts s) u"
    proof
      fix u assume "u \<in> set (filter (\<lambda>u. tid u \<noteq> tid t) (timers s))"
      then have u: "u \<in> set (timers s)" by simp
      have "due t \<le> due u" using e u by (rule earliest_le)
      then show "timer_ok (due t) (next_timer s) (next_elem s) (alerts s) u"
        using old [OF u] unfolding timer_ok_def by blast
    qed
  qed
qed

lemma alert_ok_later: "alert_ok nw ne ts x \<Longrightarrow> nw \<le> nw' \<Longrightarrow> set ts \<subseteq> set ts' \<Longrightarrow> alert_ok nw' ne ts' x"
  unfolding alert_ok_def by (cases "alert_fading x") (auto intro: order_trans)


lemma page_inv_fire_other:
  assumes inv: "page_inv s" and e: "earliest (timers s) = Some t" and d: "act t = AutoSave"
  shows "page_inv (base t s)"
proof -
  from inv have t: "timers_ok s" and a: "alerts_ok s" by (simp_all add: page_inv_def)
  have mem: "t \<in> set (timers s)" using e by (rule earliest_mem)
  have dist: "distinct (map tid (timers s))" using t by (simp add: timers_ok_def)
  note tb = timers_ok_base [OF t e]
  have nw: "now s \<le> due t" using tb(2) by (simp add: base_fields)
  have "alerts_ok (base t s)"
    unfolding alerts_ok_def base_fields(1,3,5) tb(2)
  proof (rule conjI)
    show "length (alerts s) \<le> 1" using a by (simp add: alerts_ok_def)
    show "\<forall>x\<in>set (alerts s). alert_ok (due t) (next_elem s) (filter (\<lambda>u. tid u \<noteq> tid t) (timers s)) x"
    proof
      fix x assume x: "x \<in> set (alerts s)"
      have ok: "alert_ok (now s) (next_elem s) (timers s) x" using a x by (simp add: alerts_ok_def)
      have keep: "\<exists>u\<in>set (filter (\<lambda>u. tid u \<noteq> tid t) (timers s)). act u = c"
        if "\<exists>u\<in>set (timers s). act u = c" "c \<noteq> AutoSave" for c
      proof -
        from that obtain u where u: "u \<in> set (timers s)" "act u = c" by blast
        have "u \<in> set (filter (\<lambda>v. tid v \<noteq> tid t) (timers s))"
          using dist mem u(1) by (rule other_timer_stays) (use u(2) that(2) d in simp)
        then show ?thesis using u(2) by blast
      qed
      show "alert_ok (due t) (next_elem s) (filter (\<lambda>u. tid u \<noteq> tid t) (timers s)) x"
        using ok nw keep unfolding alert_ok_def
        by (cases "alert_fading x") (auto intro: order_trans)
    qed
  qed
  then show ?thesis using tb(1) by (simp add: page_inv_def)
qed

lemma page_inv_fire_remove:
  assumes inv: "page_inv s" and e: "earliest (timers s) = Some t" and d: "act t = RemoveAlert a"
  shows "page_inv (remove_alert a (base t s))"
proof -
  from inv have t: "timers_ok s" and al: "alerts_ok s" by (simp_all add: page_inv_def)
  have mem: "t \<in> set (timers s)" using e by (rule earliest_mem)
  have dist: "distinct (map tid (timers s))" using t by (simp add: timers_ok_def)
  note tb = timers_ok_base [OF t e]
  have nw: "now s \<le> due t" using tb(2) by (simp add: base_fields)
  let ?r = "remove_alert a (base t s)"
  have f: "timers ?r = filter (\<lambda>u. tid u \<noteq> tid t) (timers s)" "now ?r = due t"
    "alerts ?r = filter (\<lambda>e. alert_id e \<noteq> a) (alerts s)"
    "next_timer ?r = next_timer s" "next_elem ?r = next_elem s"
    using tb(2) by (simp_all add: remove_alert_def base_fields)
  have "timers_ok ?r"
    unfolding timers_ok_def f
  proof (rule conjI)
    show "distinct (map tid (filter (\<lambda>u. tid u \<noteq> tid t) (timers s)))"
      using dist by (simp add: distinct_map_filter)
    show "\<forall>u\<in>set (filter (\<lambda>u. tid u \<noteq> tid t) (timers s)).
        timer_ok (due t) (next_timer s) (next_elem s) (filter (\<lambda>e. alert_id e \<noteq> a) (alerts s)) u"
    proof
      fix u assume u: "u \<in> set (filter (\<lambda>u. tid u \<noteq> tid t) (timers s))"
      then have "timer_ok (due t) (next_timer s) (next_elem s) (alerts s) u"
        using tb(1) nw by (simp add: timers_ok_def base_fields max_def)
      then show "timer_ok (due t) (next_timer s) (next_elem s) (filter (\<lambda>e. alert_id e \<noteq> a) (alerts s)) u"
        unfolding timer_ok_def by auto
    qed
  qed
  moreover have "alerts_ok ?r"
    unfolding alerts_ok_def f
  proof (rule conjI)
    have "length (alerts s) \<le> 1" using al by (simp add: alerts_ok_def)
    then show "length (filter (\<lambda>e. alert_id e \<noteq> a) (alerts s)) \<le> 1"
      by (rule order_trans [OF length_filter_le])
    show "\<forall>x\<in>set (filter (\<lambda>e. alert_id e \<noteq> a) (alerts s)).
        alert_ok (due t) (next_elem s) (filter (\<lambda>u. tid u \<noteq> tid t) (timers s)) x"
    proof
      fix x assume "x \<in> set (filter (\<lambda>e. alert_id e \<noteq> a) (alerts s))"
      then have x: "x \<in> set (alerts s)" and xa: "alert_id x \<noteq> a" by simp_all
      have ok: "alert_ok (now s) (next_elem s) (timers s) x" using al x by (simp add: alerts_ok_def)
      have keep: "\<exists>u\<in>set (filter (\<lambda>u. tid u \<noteq> tid t) (timers s)). act u = c"
        if "\<exists>u\<in>set (timers s). act u = c" "c \<noteq> RemoveAlert a" for c
      proof -
        from that obtain u where u: "u \<in> set (timers s)" "act u = c" by blast
        have "u \<in> set (filter (\<lambda>v. tid v \<noteq> tid t) (timers s))"
          using dist mem u(1) by (rule other_timer_stays) (use u(2) that(2) d in simp)
        then show ?thesis using u(2) by blast
      qed
      show "alert_ok (due t) (next_elem s) (filter (\<lambda>u. tid u \<noteq> tid t) (timers s)) x"
        using ok nw keep xa unfolding alert_ok_def
        by (cases "alert_fading x") (auto intro: order_trans)
    qed
  qed
  ultimately show ?thesis by (simp add: page_inv_def)
qed

lemma timer_ok_mark:
  "timer_ok nw nt ne (map (\<lambda>e. if alert_id e = a then e\<lparr>alert_fading := True\<rparr> else e) als) u
     = timer_ok nw nt ne als u"
proof -
  let ?f = "\<lambda>e. if alert_id e = a then e\<lparr>alert_fading := True\<rparr> else e"
  have h1: "(\<forall>x\<in>set (map ?f als). alert_id x = b \<longrightarrow> d = alert_shown_at x + 5000)
          = (\<forall>x\<in>set als. alert_id x = b \<longrightarrow> d = alert_shown_at x + 5000)" for b d
    by (induction als) simp_all
  have h2: "(\<forall>x\<in>set (map ?f als). alert_id x = b \<longrightarrow> d = alert_shown_at x + 5000 + fade_duration)
          = (\<forall>x\<in>set als. alert_id x = b \<longrightarrow> d = alert_shown_at x + 5000 + fade_duration)" for b d
    by (induction als) simp_all
  show ?thesis unfolding timer_ok_def h1 h2 ..
qed

lemma timer_ok_mono: "timer_ok nw nt ne als u \<Longrightarrow> timer_ok nw (Suc nt) ne als u"
  unfolding timer_ok_def by auto

lemma page_inv_fire_dismiss:
  assumes inv: "page_inv s" and e: "earliest (timers s) = Some t" and d: "act t = DismissAlert a"
  shows "page_inv (fadeOut a (base t s))"
proof -
  from inv have t: "timers_ok s" and al: "alerts_ok s" by (simp_all add: page_inv_def)
  have mem: "t \<in> set (timers s)" using e by (rule earliest_mem)
  have dist: "distinct (map tid (timers s))" using t by (simp add: timers_ok_def)
  note tb = timers_ok_base [OF t e]
  have nw: "now s \<le> due t" using tb(2) by (simp add: base_fields)
  have mx: "max (now s) (due t) = due t" using nw by simp
  let ?ts = "filter (\<lambda>u. tid u \<noteq> tid t) (timers s)"
  have tok: "timer_ok (now s) (next_timer s) (next_elem s) (alerts s) t"
    using t mem by (simp add: timers_ok_def)
  have rest: "timer_ok (due t) (next_timer s) (next_elem s) (alerts s) u" if "u \<in> set ?ts" for u
    using tb(1) that by (simp add: timers_ok_def base_fields mx)
  have keep: "\<exists>u\<in>set ?ts. act u = c"
    if "\<exists>u\<in>set (timers s). act u = c" "c \<noteq> DismissAlert a" for c
  proof -
    from that obtain u where u: "u \<in> set (timers s)" "act u = c" by blast
    have "u \<in> set ?ts"
      using dist mem u(1) by (rule other_timer_stays) (use u(2) that(2) d in simp)
    then show ?thesis using u(2) by blast
  qed
  have later: "alert_ok (due t) (next_elem s) ?ts x"
    if x: "x \<in> set (alerts s)" and xa: "alert_id x \<noteq> a" for x
  proof -
    have ok: "alert_ok (now s) (next_elem s) (timers s) x" using al x by (simp add: alerts_ok_def)
    show ?thesis
      using ok nw keep xa unfolding alert_ok_def
      by (cases "alert_fading x") (auto intro: order_trans)
  qed
  show ?thesis
  proof (cases "list_ex (\<lambda>e. alert_id e = a) (alerts s)")
    case False
    then have none: "\<forall>x\<in>set (alerts s). alert_id x \<noteq> a" by (simp add: list_ex_iff)
    have same: "fadeOut a (base t s) = base t s"
      using False by (simp add: fadeOut_def base_fields)
    have "alerts_ok (base t s)"
      unfolding alerts_ok_def base_fields mx
      using al later none by (simp add: alerts_ok_def)
    then show ?thesis using tb(1) by (simp add: same page_inv_def)
  next
    case True
    let ?mark = "\<lambda>e. if alert_id e = a then e\<lparr>alert_fading := True\<rparr> else e"
    let ?new = "\<lparr>tid = next_timer s, due = due t + fade_duration, act = RemoveAlert a\<rparr>"
    let ?r = "fadeOut a (base t s)"
    have f: "timers ?r = ?ts @ [?new]" "now ?r = due t" "alerts ?r = map ?mark (alerts s)"
      "next_timer ?r = Suc (next_timer s)" "next_elem ?r = next_elem s"
      using True by (simp_all add: fadeOut_def setTimeout_def base_fields mx)
    have a_lt: "a < next_elem s"
      and a_due: "\<forall>x\<in>set (alerts s). alert_id x = a \<longrightarrow> due t = alert_shown_at x + 5000"
      using tok d by (simp_all add: timer_ok_def)
    have fresh: "next_timer s \<notin> tid ` set ?ts"
    proof
      assume "next_timer s \<in> tid ` set ?ts"
      then obtain u where u: "u \<in> set ?ts" "tid u = next_timer s" by auto
      from rest [OF u(1)] u(2) show False by (simp add: timer_ok_def)
    qed
    have "timers_ok ?r"
      unfolding timers_ok_def f
    proof (rule conjI)
      show "distinct (map tid (?ts @ [?new]))"
        using dist fresh by (simp add: distinct_map_filter)
      show "\<forall>u\<in>set (?ts @ [?new]).
          timer_ok (due t) (Suc (next_timer s)) (next_elem s) (map ?mark (alerts s)) u"
      proof
        fix u assume "u \<in> set (?ts @ [?new])"
        then consider "u \<in> set ?ts" | "u = ?new" by auto
        then show "timer_ok (due t) (Suc (next_timer s)) (next_elem s) (map ?mark (alerts s)) u"
        proof cases
          case 1
          from rest [OF 1] show ?thesis
            unfolding timer_ok_mark by (rule timer_ok_mono)
        next
          case 2
          show ?thesis
            unfolding timer_ok_mark
            using a_lt a_due by (simp add: 2 timer_ok_def)
        qed
      qed
    qed
    moreover have "alerts_ok ?r"
      unfolding alerts_ok_def f
    proof (rule conjI)
      show "length (map ?mark (alerts s)) \<le> 1" using al by (simp add: alerts_ok_def)
      show "\<forall>x\<in>set (map ?mark (alerts s)). alert_ok (due t) (next_elem s) (?ts @ [?new]) x"
      proof
        fix y assume "y \<in> set (map ?mark (alerts s))"
        then obtain x where x: "x \<in> set (alerts s)" and y: "y = ?mark x" by auto
        have ok: "alert_ok (now s) (next_elem s) (timers s) x"
          using al x by (simp add: alerts_ok_def)
        show "alert_ok (due t) (next_elem s) (?ts @ [?new]) y"
        proof (cases "alert_id x = a")
          case True
          then have "due t = alert_shown_at x + 5000" using a_due x by blast
          then show ?thesis
            using ok True by (simp add: y alert_ok_def)
        next
          case False
          from later [OF x False] show ?thesis
            using False unfolding y alert_ok_def by auto
        qed
      qed
    qed
    ultimately show ?thesis by (simp add: page_inv_def)
  qed
qed

text \<open>What the invariant says of the age of a displayed alert: it does not fade
  before it is five seconds old, it fades from then on, and it is not displayed any
  more when the fade-out is over.\<close>

definition on_time :: "nat \<Rightarrow> alert_el \<Rightarrow> bool" where
  "on_time nw x \<longleftrightarrow>
     alert_shown_at x \<le> nw \<and>
     (if alert_fading x
      then alert_shown_at x + 5000 \<le> nw \<and> nw < alert_shown_at x + 5000 + fade_duration
      else nw < alert_shown_at x + 5000)"

lemma page_inv_on_time:
  assumes inv: "page_inv s" and st: "settled s" and x: "x \<in> set (alerts s)"
  shows "on_time (now s) x"
proof -
  have ok: "alert_ok (now s) (next_elem s) (timers s) x"
    using inv x by (simp add: page_inv_def alerts_ok_def)
  have tk: "timer_ok (now s) (next_timer s) (next_elem s) (alerts s) u" if "u \<in> set (timers s)" for u
    using inv that by (simp add: page_inv_def timers_ok_def)
  show ?thesis
  proof (cases "alert_fading x")
    case True
    then obtain u where u: "u \<in> set (timers s)" "act u = RemoveAlert (alert_id x)"
      using ok by (auto simp: alert_ok_def)
    have "due u = alert_shown_at x + 5000 + fade_duration"
      using tk [OF u(1)] u(2) x by (simp add: timer_ok_def)
    moreover have "now s < due u" using st u(1) by (simp add: settled_def)
    ultimately show ?thesis using ok True by (simp add: on_time_def alert_ok_def)
  next
    case False
    then obtain u where u: "u \<in> set (timers s)" "act u = DismissAlert (alert_id x)"
      using ok by (auto simp: alert_ok_def)
    have "due u = alert_shown_at x + 5000"
      using tk [OF u(1)] u(2) x by (simp add: timer_ok_def)
    moreover have "now s < due u" using st u(1) by (simp add: settled_def)
    ultimately show ?thesis using ok False by (simp add: on_time_def alert_ok_def)
  qed
qed

lemma page_inv_advance:
  assumes p: "page_inv s" and le: "now s \<le> T" and far: "\<forall>u\<in>set (timers s). T < due u"
  shows "page_inv (s\<lparr>now := T\<rparr>) \<and> settled (s\<lparr>now := T\<rparr>)"
proof -
  from p have t: "timers_ok s" and a: "alerts_ok s" by (simp_all add: page_inv_def)
  have "timers_ok (s\<lparr>now := T\<rparr>)"
    unfolding timers_ok_def
  proof (rule conjI)
    show "distinct (map tid (timers (s\<lparr>now := T\<rparr>)))" using t by (simp add: timers_ok_def)
    show "\<forall>u\<in>set (timers (s\<lparr>now := T\<rparr>)).
        timer_ok (now (s\<lparr>now := T\<rparr>)) (next_timer (s\<lparr>now := T\<rparr>)) (next_elem (s\<lparr>now := T\<rparr>))
          (alerts (s\<lparr>now := T\<rparr>)) u"
    proof
      fix u assume "u \<in> set (timers (s\<lparr>now := T\<rparr>))"
      then have u: "u \<in> set (timers s)" by simp
      have "timer_ok (now s) (next_timer s) (next_elem s) (alerts s) u"
        using t u by (simp add: timers_ok_def)
      moreover have "T \<le> due u" using far u by (auto intro: less_imp_le)
      ultimately show "timer_ok (now (s\<lparr>now := T\<rparr>)) (next_timer (s\<lparr>now := T\<rparr>))
          (next_elem (s\<lparr>now := T\<rparr>)) (alerts (s\<lparr>now := T\<rparr>)) u"
        by (simp add: timer_ok_def)
    qed
  qed
  moreover have "alerts_ok (s\<lparr>now := T\<rparr>)"
    unfolding alerts_ok_def
  proof (rule conjI)
    show "length (alerts (s\<lparr>now := T\<rparr>)) \<le> 1" using a by (simp add: alerts_ok_def)
    show "\<forall>x\<in>set (alerts (s\<lparr>now := T\<rparr>)).
        alert_ok (now (s\<lparr>now := T\<rparr>)) (next_elem (s\<lparr>now := T\<rparr>)) (timers (s\<lparr>now := T\<rparr>)) x"
    proof
      fix x assume "x \<in> set (alerts (s\<lparr>now := T\<rparr>))"
      then have "alert_ok (now s) (next_elem s) (timers s) x" using a by (simp add: alerts_ok_def)
      then have "alert_ok T (next_elem s) (timers s) x" using le by (rule alert_ok_later) simp
      then show "alert_ok (now (s\<lparr>now := T\<rparr>)) (next_elem (s\<lparr>now := T\<rparr>)) (timers (s\<lparr>now := T\<rparr>)) x"
        by simp
    qed
  qed
  moreover have "settled (s\<lparr>now := T\<rparr>)"
    using far by (simp add: settled_def)
  ultimately show ?thesis by (simp add: page_inv_def)
qed

text \<open>The timeouts change, the alerts do not: an auto-save is set or dropped.\<close>

lemma page_inv_timers:
  assumes p: "page_inv s"
    and nw: "now s' = now s" and al: "alerts s' = alerts s" and ne: "next_elem s' = next_elem s"
    and nt: "next_timer s \<le> next_timer s'"
    and d: "distinct (map tid (timers s'))"
    and new: "\<forall>u\<in>set (timers s'). u \<in> set (timers s) \<or>
                (tid u < next_timer s' \<and> now s \<le> due u \<and> act u = AutoSave)"
    and keep: "\<forall>u\<in>set (timers s). act u \<noteq> AutoSave \<longrightarrow> u \<in> set (timers s')"
  shows "page_inv s'"
proof -
  from p have t: "timers_ok s" and a: "alerts_ok s" by (simp_all add: page_inv_def)
  have "timers_ok s'"
    unfolding timers_ok_def nw al ne
  proof (rule conjI)
    show "distinct (map tid (timers s'))" by (rule d)
    show "\<forall>u\<in>set (timers s'). timer_ok (now s) (next_timer s') (next_elem s) (alerts s) u"
    proof
      fix u assume u: "u \<in> set (timers s')"
      from new u consider "u \<in> set (timers s)"
        | "tid u < next_timer s'" "now s \<le> due u" "act u = AutoSave" by blast
      then show "timer_ok (now s) (next_timer s') (next_elem s) (alerts s) u"
      proof cases
        case 1
        then have "timer_ok (now s) (next_timer s) (next_elem s) (alerts s) u"
          using t by (simp add: timers_ok_def)
        then show ?thesis using nt unfolding timer_ok_def by auto
      next
        case 2
        then show ?thesis by (simp add: timer_ok_def)
      qed
    qed
  qed
  moreover have "alerts_ok s'"
    unfolding alerts_ok_def nw al ne
  proof (rule conjI)
    show "length (alerts s) \<le> 1" using a by (simp add: alerts_ok_def)
    show "\<forall>x\<in>set (alerts s). alert_ok (now s) (next_elem s) (timers s') x"
    proof
      fix x assume "x \<in> set (alerts s)"
      then have ok: "alert_ok (now s) (next_elem s) (timers s) x" using a by (simp add: alerts_ok_def)
      have k: "\<exists>u\<in>set (timers s'). act u = c"
        if "\<exists>u\<in>set (timers s). act u = c" "c \<noteq> AutoSave" for c
      proof -
        from that obtain u where u: "u \<in> set (timers s)" "act u = c" by blast
        then have "u \<in> set (timers s')" using keep that(2) by auto
        then show ?thesis using u(2) by blast
      qed
      show "alert_ok (now s) (next_elem s) (timers s') x"
        using ok k unfolding alert_ok_def by (cases "alert_fading x") auto
    qed
  qed
  ultimately show ?thesis by (simp add: page_inv_def)
qed

text \<open>On the admin page the variable \<open>autoSaveTimeout\<close> holds the handle of every
  pending auto-save, so that there is at most one. \<open>core\<close> is the part of the page
  these invariants read.\<close>

definition autosave_ok :: "admin_state \<Rightarrow> bool" where
  "autosave_ok s \<longleftrightarrow>
     (\<forall>t\<in>set (timers s). act t = AutoSave \<longrightarrow> autoSaveTimeout s = Some (tid t)) \<and>
     (\<forall>i. autoSaveTimeout s = Some i \<longrightarrow>
        i < next_timer s \<and> (\<forall>t\<in>set (timers s). tid t = i \<longrightarrow> act t = AutoSave))"

definition admin_inv :: "admin_state \<Rightarrow> bool" where
  "admin_inv s \<longleftrightarrow> page_inv s \<and> autosave_ok s"

definition good :: "admin_state \<Rightarrow> bool" where
  "good s \<longleftrightarrow> admin_inv s \<and> settled s"

definition core :: "admin_state \<Rightarrow> nat \<times> timer list \<times> nat \<times> alert_el list \<times> nat \<times> nat option \<times> bool" where
  "core s = (now s, timers s, next_timer s, alerts s, next_elem s, autoSaveTimeout s,
             sessionWarningShown s)"

lemma core_good: "core s' = core s \<Longrightarrow> good s' = good s"
  by (simp add: core_def good_def admin_inv_def autosave_ok_def page_inv_def timers_ok_def
        alerts_ok_def settled_def)

lemma core_admin_inv: "core s' = core s \<Longrightarrow> admin_inv s' = admin_inv s"
  by (simp add: core_def admin_inv_def autosave_ok_def page_inv_def timers_ok_def alerts_ok_def)

lemma core_send [simp]: "core (send u m b cb s) = core s"
  by (simp add: core_def send_def)

lemma core_loaders [simp]:
  "core (loadDashboardData s) = core s" "core (loadFormatChart s) = core s"
  "core (loadVisitors s) = core s" "core (loadBanners s) = core s"
  "core (loadDownloads s) = core s" "core (loadSettings s) = core s"
  "core (loadBannerData i s) = core s" "core (session_check s) = core s"
  "core (saveSettings s) = core s" "core (deleteBanner i s) = core s"
  "core (saveBanner d e s) = core s" "core (uploadBannerImage f d e s) = core s"
  by (simp_all add: loadDashboardData_def loadFormatChart_def loadVisitors_def loadBanners_def
        loadDownloads_def loadSettings_def loadBannerData_def session_check_def saveSettings_def
        deleteBanner_def saveBanner_def uploadBannerImage_def Let_def)

lemma core_updates [simp]:
  "core (updateDashboardStats st s) = core s" "core (updatePopularVideos vs s) = core s"
  "core (updateFormatChart fs s) = core s" "core (updateVisitorsTable v s) = core s"
  "core (updateBannersGrid b s) = core s" "core (updateDownloadsTable d s) = core s"
  "core (updateSettingsForm ss s) = core s" "core (console_error l e s) = core s"
  "core (closeBannerModal s) = core s" "core (edit_banner_form bf f s) = core s"
  "core (showBannerModal i s) = core s" "core (showSection sec s) = core s"
  "core (click_nav sec s) = core s" "core (auto_refresh s) = core s"
  by (simp_all add: updateDashboardStats_def updatePopularVideos_def updateFormatChart_def
        updateVisitorsTable_def updateBannersGrid_def updateDownloadsTable_def
        updateSettingsForm_def console_error_def closeBannerModal_def edit_banner_form_def
        showBannerModal_def showSection_def click_nav_def auto_refresh_def core_def
        loadDashboardData_def loadVisitors_def loadBanners_def loadDownloads_def
        loadSettings_def loadBannerData_def send_def Let_def split: option.splits)

lemma autosave_ok_showAlert: "autosave_ok s \<Longrightarrow> autosave_ok (admin_showAlert m ty s)"
  by (fastforce simp: autosave_ok_def admin_showAlert_def setTimeout_def Let_def less_Suc_eq)

lemma admin_showAlert_fields:
  "now (admin_showAlert m ty s) = now s"
  "timers (admin_showAlert m ty s) =
     timers s @ [\<lparr>tid = next_timer s, due = now s + 5000, act = DismissAlert (next_elem s)\<rparr>]"
  "next_timer (admin_showAlert m ty s) = Suc (next_timer s)"
  "next_elem (admin_showAlert m ty s) = Suc (next_elem s)"
  "requests (admin_showAlert m ty s) = requests s"
  "pending (admin_showAlert m ty s) = pending s"
  "autoSaveTimeout (admin_showAlert m ty s) = autoSaveTimeout s"
  "sessionWarningShown (admin_showAlert m ty s) = sessionWarningShown s"
  by (simp_all add: admin_showAlert_def setTimeout_def Let_def)

lemma admin_showAlert_alerts:
  "\<exists>el. alerts (admin_showAlert m ty s) = [el\<lparr>alert_id := next_elem s\<rparr>] \<and>
        alert_shown_at el = now s \<and> \<not> alert_fading el"
proof -
  obtain el where "alerts (admin_showAlert m ty s) = [el]" "alert_id el = next_elem s"
    "alert_shown_at el = now s" "\<not> alert_fading el"
    by (simp add: admin_showAlert_def setTimeout_def Let_def)
  then have "alerts (admin_showAlert m ty s) = [el\<lparr>alert_id := next_elem s\<rparr>] \<and>
        alert_shown_at el = now s \<and> \<not> alert_fading el" by simp
  then show ?thesis ..
qed

lemma page_inv_showAlert: "page_inv s \<Longrightarrow> page_inv (admin_showAlert m ty s)"
  by (erule page_inv_alert) (simp_all add: admin_showAlert_fields admin_showAlert_alerts)

lemma settled_showAlert: "settled s \<Longrightarrow> settled (admin_showAlert m ty s)"
  by (erule settled_alert) (simp_all add: admin_showAlert_fields)

lemma good_showAlert: "good s \<Longrightarrow> good (admin_showAlert m ty s)"
  by (simp add: good_def admin_inv_def page_inv_showAlert autosave_ok_showAlert settled_showAlert)

text \<open>The pending timeouts when \<open>clearTimeout(autoSaveTimeout)\<close> has run.\<close>

definition cleared :: "admin_state \<Rightarrow> timer list" where
  "cleared s = (case autoSaveTimeout s of None \<Rightarrow> timers s
                | Some i \<Rightarrow> filter (\<lambda>t. tid t \<noteq> i) (timers s))"

lemma settings_input_fields:
  "timers (settings_input s) = cleared s @ [\<lparr>tid = next_timer s, due = now s + 2000, act = AutoSave\<rparr>]"
  "now (settings_input s) = now s" "next_timer (settings_input s) = Suc (next_timer s)"
  "alerts (settings_input s) = alerts s" "next_elem (settings_input s) = next_elem s"
  "autoSaveTimeout (settings_input s) = Some (next_timer s)"
  by (simp_all add: cleared_def settings_input_def clearTimeout_def setTimeout_def Let_def
        split: option.splits)

lemma cleared_sub: "u \<in> set (cleared s) \<Longrightarrow> u \<in> set (timers s)"
  by (auto simp: cleared_def split: option.splits)

lemma cleared_distinct: "distinct (map tid (timers s)) \<Longrightarrow> distinct (map tid (cleared s))"
  by (auto simp: cleared_def distinct_map_filter split: option.splits)

lemma cleared_no_autosave:
  assumes au: "autosave_ok s" and u: "u \<in> set (cleared s)"
  shows "act u \<noteq> AutoSave"
proof
  assume x: "act u = AutoSave"
  have m: "u \<in> set (timers s)" using u by (rule cleared_sub)
  have p: "autoSaveTimeout s = Some (tid u)"
    using au x m unfolding autosave_ok_def by blast
  then have "cleared s = filter (\<lambda>t. tid t \<noteq> tid u) (timers s)" by (simp add: cleared_def)
  with u show False by simp
qed

lemma cleared_keeps:
  assumes au: "autosave_ok s" and m: "u \<in> set (timers s)" and x: "act u \<noteq> AutoSave"
  shows "u \<in> set (cleared s)"
proof (cases "autoSaveTimeout s")
  case None
  then show ?thesis using m by (simp add: cleared_def)
next
  case (Some i)
  have "tid u = i \<longrightarrow> act u = AutoSave"
    using au m Some unfolding autosave_ok_def by blast
  with x have "tid u \<noteq> i" by blast
  with Some m show ?thesis by (simp add: cleared_def)
qed

lemma good_settings_input:
  assumes g: "good s"
  shows "good (settings_input s)"
proof -
  from g have p: "page_inv s" and au: "autosave_ok s" and st: "settled s"
    by (simp_all add: good_def admin_inv_def)
  from p have t: "timers_ok s" by (simp add: page_inv_def)
  note f = settings_input_fields
  let ?new = "\<lparr>tid = next_timer s, due = now s + 2000, act = AutoSave\<rparr>"
  have old: "tid u < next_timer s \<and> now s < due u \<and> act u \<noteq> AutoSave"
    if "u \<in> set (cleared s)" for u
  proof -
    have m: "u \<in> set (timers s)" using that by (rule cleared_sub)
    have "act u \<noteq> AutoSave" using au that by (rule cleared_no_autosave)
    then show ?thesis using t st m by (simp add: timers_ok_def timer_ok_def settled_def)
  qed
  have fresh: "next_timer s \<notin> tid ` set (cleared s)"
  proof
    assume "next_timer s \<in> tid ` set (cleared s)"
    then obtain u where "u \<in> set (cleared s)" "tid u = next_timer s" by auto
    then show False using old [of u] by simp
  qed
  have d: "distinct (map tid (cleared s))"
    using t by (simp add: timers_ok_def cleared_distinct)
  have p': "page_inv (settings_input s)"
  proof (rule page_inv_timers [OF p])
    show "now (settings_input s) = now s" "alerts (settings_input s) = alerts s"
      "next_elem (settings_input s) = next_elem s" by (simp_all add: f)
    show "next_timer s \<le> next_timer (settings_input s)" by (simp add: f)
    show "distinct (map tid (timers (settings_input s)))"
      using d fresh by (simp add: f)
    show "\<forall>u\<in>set (timers (settings_input s)). u \<in> set (timers s) \<or>
        (tid u < next_timer (settings_input s) \<and> now s \<le> due u \<and> act u = AutoSave)"
      unfolding f
    proof
      fix u assume "u \<in> set (cleared s @ [?new])"
      then consider "u \<in> set (cleared s)" | "u = ?new" by auto
      then show "u \<in> set (timers s) \<or>
          (tid u < Suc (next_timer s) \<and> now s \<le> due u \<and> act u = AutoSave)"
      proof cases
        case 1
        then show ?thesis using cleared_sub by blast
      next
        case 2
        then show ?thesis by simp
      qed
    qed
    show "\<forall>u\<in>set (timers s). act u \<noteq> AutoSave \<longrightarrow> u \<in> set (timers (settings_input s))"
      unfolding f using cleared_keeps [OF au] by auto
  qed
  have au': "autosave_ok (settings_input s)"
    unfolding autosave_ok_def f
  proof (rule conjI)
    show "\<forall>u\<in>set (cleared s @ [?new]). act u = AutoSave \<longrightarrow> Some (next_timer s) = Some (tid u)"
    proof (intro ballI impI)
      fix u assume "u \<in> set (cleared s @ [?new])" and au: "act u = AutoSave"
      then consider "u \<in> set (cleared s)" | "u = ?new" by auto
      then show "Some (next_timer s) = Some (tid u)"
      proof cases
        case 1
        then show ?thesis using old [OF 1] au by simp
      next
        case 2
        then show ?thesis by simp
      qed
    qed
    show "\<forall>i. Some (next_timer s) = Some i \<longrightarrow> i < Suc (next_timer s) \<and>
        (\<forall>u\<in>set (cleared s @ [?new]). tid u = i \<longrightarrow> act u = AutoSave)"
    proof (intro allI impI conjI ballI)
      fix i assume "Some (next_timer s) = Some i"
      then show "i < Suc (next_timer s)" by simp
    next
      fix i u assume i: "Some (next_timer s) = Some i"
        and "u \<in> set (cleared s @ [?new])" and ti: "tid u = i"
      then consider "u \<in> set (cleared s)" | "u = ?new" by auto
      then show "act u = AutoSave"
      proof cases
        case 1
        then show ?thesis using old [OF 1] i ti by simp
      next
        case 2
        then show ?thesis by simp
      qed
    qed
  qed
  have s': "settled (settings_input s)"
    unfolding settled_def f
  proof
    fix u assume "u \<in> set (cleared s @ [?new])"
    then consider "u \<in> set (cleared s)" | "u = ?new" by auto
    then show "now s < due u"
    proof cases
      case 1
      then show ?thesis using old [OF 1] by simp
    next
      case 2
      then show ?thesis by simp
    qed
  qed
  from p' au' s' show ?thesis by (simp add: good_def admin_inv_def)
qed

lemmas good_frame =
  core_good [OF core_send] core_good [OF core_loaders(1)] core_good [OF core_loaders(2)]
  core_good [OF core_loaders(3)] core_good [OF core_loaders(4)] core_good [OF core_loaders(5)]
  core_good [OF core_loaders(6)] core_good [OF core_loaders(7)] core_good [OF core_loaders(8)]
  core_good [OF core_loaders(9)] core_good [OF core_loaders(10)] core_good [OF core_loaders(11)]
  core_good [OF core_loaders(12)]
  core_good [OF core_updates(1)] core_good [OF core_updates(2)] core_good [OF core_updates(3)]
  core_good [OF core_updates(4)] core_good [OF core_updates(5)] core_good [OF core_updates(6)]
  core_good [OF core_updates(7)] core_good [OF core_updates(8)] core_good [OF core_updates(9)]
  core_good [OF core_updates(10)] core_good [OF core_updates(11)] core_good [OF core_updates(12)]
  core_good [OF core_updates(13)] core_good [OF core_updates(14)]

lemma good_fields:
  "good (s\<lparr>pending := p\<rparr>) = good s"
  "good (s\<lparr>exported := x\<rparr>) = good s"
  "good (s\<lparr>views := v\<rparr>) = good s"
  "good (s\<lparr>modal := m\<rparr>) = good s"
  by (rule core_good, simp add: core_def)+

lemma good_flag: "good (s\<lparr>sessionWarningShown := b\<rparr>) = good s"
  by (simp add: good_def admin_inv_def autosave_ok_def page_inv_def timers_ok_def alerts_ok_def
        settled_def)

lemma good_on_dashboard: "good s \<Longrightarrow> good (on_dashboard r s)"
  by (cases r) (simp_all add: on_dashboard_def good_frame)

lemma good_on_format_chart: "good s \<Longrightarrow> good (on_format_chart r s)"
  by (cases r) (simp_all add: on_format_chart_def good_frame split: option.splits)

lemma good_on_visitors: "good s \<Longrightarrow> good (on_visitors r s)"
  by (cases r) (simp_all add: on_visitors_def good_frame)

lemma good_on_banners: "good s \<Longrightarrow> good (on_banners r s)"
  by (cases r) (simp_all add: on_banners_def good_frame)

lemma good_on_downloads: "good s \<Longrightarrow> good (on_downloads r s)"
  by (cases r) (simp_all add: on_downloads_def good_frame)

lemma good_on_settings: "good s \<Longrightarrow> good (on_settings r s)"
  by (cases r) (simp_all add: on_settings_def good_frame)

lemma good_on_banner_data: "good s \<Longrightarrow> good (on_banner_data i r s)"
  by (cases r) (simp_all add: on_banner_data_def good_fields split: option.splits)

lemma good_on_upload: "good s \<Longrightarrow> good (on_upload d e r s)"
  by (cases r) (simp_all add: on_upload_def good_frame good_showAlert)

lemma good_on_save_banner: "good s \<Longrightarrow> good (on_save_banner r s)"
  by (cases r) (simp_all add: on_save_banner_def good_frame good_showAlert)

lemma good_on_delete_banner: "good s \<Longrightarrow> good (on_delete_banner r s)"
  by (cases r) (simp_all add: on_delete_banner_def good_frame good_showAlert)

lemma good_on_save_settings: "good s \<Longrightarrow> good (on_save_settings r s)"
  by (cases r) (simp_all add: on_save_settings_def good_showAlert)

lemma good_on_session: "good s \<Longrightarrow> good (on_session r s)"
  by (cases r) (simp_all add: on_session_def good_flag good_showAlert)

lemma good_deliver: "good s \<Longrightarrow> good (admin_deliver cb r s)"
  by (cases cb)
     (simp_all add: admin_deliver_def good_on_dashboard good_on_format_chart good_on_visitors
        good_on_banners good_on_downloads good_on_settings good_on_banner_data good_on_upload
        good_on_save_banner good_on_delete_banner good_on_save_settings good_on_session)

lemma autosave_ok_subset:
  assumes au: "autosave_ok s" and sub: "set (timers s') \<subseteq> set (timers s)"
    and nt: "next_timer s' = next_timer s" and ap: "autoSaveTimeout s' = autoSaveTimeout s"
  shows "autosave_ok s'"
  unfolding autosave_ok_def nt ap
proof (intro conjI ballI allI impI)
  fix t assume "t \<in> set (timers s')" "act t = AutoSave"
  then have "t \<in> set (timers s)" "act t = AutoSave" using sub by auto
  then show "autoSaveTimeout s = Some (tid t)" using au unfolding autosave_ok_def by blast
next
  fix i assume "autoSaveTimeout s = Some i"
  then show "i < next_timer s" using au unfolding autosave_ok_def by blast
next
  fix i t assume i: "autoSaveTimeout s = Some i" and "t \<in> set (timers s')" and ti: "tid t = i"
  then have "t \<in> set (timers s)" using sub by auto
  then show "act t = AutoSave" using au i ti unfolding autosave_ok_def by blast
qed

lemma autosave_ok_fadeOut:
  assumes au: "autosave_ok (s :: admin_state)"
  shows "autosave_ok (fadeOut a s)"
proof (cases "list_ex (\<lambda>e. alert_id e = a) (alerts s)")
  case False
  then show ?thesis using au by (simp add: fadeOut_def)
next
  case True
  let ?new = "\<lparr>tid = next_timer s, due = now s + fade_duration, act = RemoveAlert a\<rparr>"
  have f: "timers (fadeOut a s) = timers s @ [?new]" "next_timer (fadeOut a s) = Suc (next_timer s)"
    "autoSaveTimeout (fadeOut a s) = autoSaveTimeout s"
    using True by (simp_all add: fadeOut_def setTimeout_def)
  show ?thesis
    unfolding autosave_ok_def f
  proof (intro conjI ballI allI impI)
    fix t assume "t \<in> set (timers s @ [?new])" "act t = AutoSave"
    then have "t \<in> set (timers s)" "act t = AutoSave" by auto
    then show "autoSaveTimeout s = Some (tid t)" using au unfolding autosave_ok_def by blast
  next
    fix i assume "autoSaveTimeout s = Some i"
    then have "i < next_timer s" using au unfolding autosave_ok_def by blast
    then show "i < Suc (next_timer s)" by simp
  next
    fix i t assume i: "autoSaveTimeout s = Some i" and m: "t \<in> set (timers s @ [?new])" and ti: "tid t = i"
    have "i < next_timer s" using au i unfolding autosave_ok_def by blast
    then have "t \<noteq> ?new" using ti by auto
    then have "t \<in> set (timers s)" using m by auto
    then show "act t = AutoSave" using au i ti unfolding autosave_ok_def by blast
  qed
qed

lemma admin_fire_base:
  "admin_fire t s =
     (case act t of
        DismissAlert a \<Rightarrow> fadeOut a (base t s)
      | RemoveAlert a \<Rightarrow> remove_alert a (base t s)
      | AutoSave \<Rightarrow> saveSettings (admin_showAlert (Fixed Autosaving_settings) (js ''info'') (base t s)))"
  by (cases "act t") (simp_all add: admin_fire_def base_def Let_def)

lemma admin_inv_fire:
  assumes inv: "admin_inv s" and e: "earliest (timers s) = Some t"
  shows "admin_inv (admin_fire t s)"
proof -
  from inv have p: "page_inv s" and au: "autosave_ok s" by (simp_all add: admin_inv_def)
  have aub: "autosave_ok (base t s)"
    by (rule autosave_ok_subset [OF au]) (simp_all add: base_def)
  show ?thesis
  proof (cases "act t")
    case (DismissAlert a)
    have "page_inv (fadeOut a (base t s))"
      by (rule page_inv_fire_dismiss [OF p e DismissAlert])
    moreover have "autosave_ok (fadeOut a (base t s))"
      using aub by (rule autosave_ok_fadeOut)
    ultimately show ?thesis using DismissAlert by (simp add: admin_fire_base admin_inv_def)
  next
    case (RemoveAlert a)
    have "page_inv (remove_alert a (base t s))"
      by (rule page_inv_fire_remove [OF p e RemoveAlert])
    moreover have "autosave_ok (remove_alert a (base t s))"
      by (rule autosave_ok_subset [OF aub]) (simp_all add: remove_alert_def)
    ultimately show ?thesis using RemoveAlert by (simp add: admin_fire_base admin_inv_def)
  next
    case AutoSave
    have pb: "page_inv (base t s)"
      by (rule page_inv_fire_other [OF p e AutoSave])
    have "admin_inv (admin_showAlert (Fixed Autosaving_settings) (js ''info'') (base t s))"
      using pb aub by (simp add: admin_inv_def page_inv_showAlert autosave_ok_showAlert)
    then have "admin_inv (saveSettings (admin_showAlert (Fixed Autosaving_settings) (js ''info'') (base t s)))"
      by (simp add: core_admin_inv [OF core_loaders(9)])
    then show ?thesis using AutoSave by (simp add: admin_fire_base)
  qed
qed

lemma now_fadeOut: "now (fadeOut a s) = now s"
  by (simp add: fadeOut_def setTimeout_def)

lemma now_admin_fire: "now (admin_fire t s) = max (now s) (due t)"
  by (cases "act t")
     (simp_all add: admin_fire_base base_def now_fadeOut remove_alert_def saveSettings_def
        send_def admin_showAlert_fields)

lemma elapse_good:
  "admin_inv s \<Longrightarrow> now s \<le> T \<Longrightarrow>
     good (admin_elapse_to T s) \<and> now (admin_elapse_to T s) = T"
proof (induction T s rule: admin_elapse_to.induct)
  case (1 T s)
  from "1.prems" have p: "page_inv s" and au: "autosave_ok s" by (simp_all add: admin_inv_def)
  have m: "max (now s) T = T" using "1.prems" by simp
  show ?case
  proof (cases "earliest (timers s)")
    case None
    then have e: "timers s = []" by (simp add: earliest_None)
    have "page_inv (s\<lparr>now := T\<rparr>) \<and> settled (s\<lparr>now := T\<rparr>)"
      by (rule page_inv_advance [OF p "1.prems"(2)]) (simp add: e)
    moreover have "autosave_ok (s\<lparr>now := T\<rparr>)"
      by (rule autosave_ok_subset [OF au]) simp_all
    ultimately show ?thesis
      using None m by (subst (1 2) admin_elapse_to.simps) (simp add: good_def admin_inv_def)
  next
    case (Some t)
    show ?thesis
    proof (cases "due t \<le> T")
      case True
      have i: "admin_inv (admin_fire t s)" using "1.prems"(1) Some by (rule admin_inv_fire)
      have n: "now (admin_fire t s) \<le> T" using True "1.prems"(2) by (simp add: now_admin_fire)
      have "good (admin_elapse_to T (admin_fire t s)) \<and> now (admin_elapse_to T (admin_fire t s)) = T"
        using "1.IH" [OF Some True i n] .
      then show ?thesis
        using Some True by (subst (1 2) admin_elapse_to.simps) simp
    next
      case False
      have far: "\<forall>u\<in>set (timers s). T < due u"
        using False earliest_le [OF Some] by (auto simp: not_le intro: less_le_trans)
      have "page_inv (s\<lparr>now := T\<rparr>) \<and> settled (s\<lparr>now := T\<rparr>)"
        by (rule page_inv_advance [OF p "1.prems"(2) far])
      moreover have "autosave_ok (s\<lparr>now := T\<rparr>)"
        by (rule autosave_ok_subset [OF au]) simp_all
      ultimately show ?thesis
        using Some False m by (subst (1 2) admin_elapse_to.simps) (simp add: good_def admin_inv_def)
    qed
  qed
qed

lemma good_step: "good s \<Longrightarrow> good (admin_step ev s)"
proof (cases ev)
  case (AdminElapse d)
  assume "good s"
  then have "admin_inv s" by (simp add: good_def)
  then show ?thesis using AdminElapse elapse_good [of s "now s + d"] by simp
next
  case (AdminRespond i r)
  assume "good s"
  then show ?thesis using AdminRespond by (simp add: good_deliver good_fields)
next
  case (TypeSetting i v)
  assume "good s"
  then show ?thesis using TypeSetting
    by (simp add: type_setting_def good_settings_input good_fields)
next
  case (ExportData ty vt dt)
  assume "good s"
  then show ?thesis using ExportData
    by (simp add: exportData_def downloadCSV_def good_showAlert good_fields Let_def split: prod.splits)
next
  case SubmitBannerForm
  assume "good s"
  then show ?thesis using SubmitBannerForm
    by (simp add: submit_banner_form_def banner_form_submit_def banner_form_validate_def
          validateBannerForm_def good_frame good_showAlert Let_def split: option.splits)
qed (simp_all add: good_frame good_fields good_showAlert interval_fires_def
       click_delete_banner_def bulkDeleteBanners_def refreshVisitors_def refreshDownloads_def
       split: interval_action.splits)

lemma good_run: "good s \<Longrightarrow> good (admin_run evs s)"
  unfolding admin_run_def by (induction evs arbitrary: s) (simp_all add: good_step)

lemma good_init: "good (admin_init cs fm)"
proof -
  have "core (admin_init cs fm) = (0, [], 0, [], 0, None, False)"
    by (simp add: admin_init_def core_def loadDashboardData_def send_def)
  then show ?thesis
    by (simp add: core_def good_def admin_inv_def page_inv_def timers_ok_def alerts_ok_def
          autosave_ok_def settled_def)
qed

text \<open>The download page: it has no auto-save, so the invariant of the page is all.\<close>

definition main_good :: "main_state \<Rightarrow> bool" where
  "main_good s \<longleftrightarrow> page_inv s \<and> settled s"

definition main_core :: "main_state \<Rightarrow> nat \<times> timer list \<times> nat \<times> alert_el list \<times> nat" where
  "main_core s = (now s, timers s, next_timer s, alerts s, next_elem s)"

lemma main_core_good: "main_core s' = main_core s \<Longrightarrow> main_good s' = main_good s"
  by (simp add: main_core_def main_good_def page_inv_def timers_ok_def alerts_ok_def settled_def)

lemma main_showAlert_fields:
  "now (main_showAlert m ty s) = now s"
  "timers (main_showAlert m ty s) =
     timers s @ [\<lparr>tid = next_timer s, due = now s + 5000, act = DismissAlert (next_elem s)\<rparr>]"
  "next_timer (main_showAlert m ty s) = Suc (next_timer s)"
  "next_elem (main_showAlert m ty s) = Suc (next_elem s)"
  "requests (main_showAlert m ty s) = requests s"
  "pending (main_showAlert m ty s) = pending s"
  by (simp_all add: main_showAlert_def setTimeout_def Let_def)

lemma main_showAlert_alerts:
  "\<exists>el. alerts (main_showAlert m ty s) = [el\<lparr>alert_id := next_elem s\<rparr>] \<and>
        alert_shown_at el = now s \<and> \<not> alert_fading el"
proof -
  obtain el where "alerts (main_showAlert m ty s) = [el]" "alert_id el = next_elem s"
    "alert_shown_at el = now s" "\<not> alert_fading el"
    by (simp add: main_showAlert_def setTimeout_def Let_def)
  then have "alerts (main_showAlert m ty s) = [el\<lparr>alert_id := next_elem s\<rparr>] \<and>
        alert_shown_at el = now s \<and> \<not> alert_fading el" by simp
  then show ?thesis ..
qed

lemma main_good_showAlert: "main_good s \<Longrightarrow> main_good (main_showAlert m ty s)"
proof -
  assume g: "main_good s"
  then have p: "page_inv s" and st: "settled s" by (simp_all add: main_good_def)
  have "page_inv (main_showAlert m ty s)"
    by (rule page_inv_alert [OF p]) (simp_all add: main_showAlert_fields main_showAlert_alerts)
  moreover have "settled (main_showAlert m ty s)"
    by (rule settled_alert [OF st]) (simp_all add: main_showAlert_fields)
  ultimately show ?thesis by (simp add: main_good_def)
qed

lemma main_core_frame:
  "main_core (showLoading s) = main_core s" "main_core (hideLoading s) = main_core s"
  "main_core (getVideoInfo u s) = main_core s" "main_core (downloadSubtitle u f l s) = main_core s"
  "main_core (previewSubtitle u l s) = main_core s" "main_core (updateLanguageOptions subs s) = main_core s"
  "main_core (url_input s) = main_core s" "main_core (language_change s) = main_core s"
  by (simp_all add: main_core_def showLoading_def hideLoading_def getVideoInfo_def
        downloadSubtitle_def previewSubtitle_def updateLanguageOptions_def send_def
        url_input_def language_change_def Let_def)

lemmas main_good_frame =
  main_core_good [OF main_core_frame(1)] main_core_good [OF main_core_frame(2)]
  main_core_good [OF main_core_frame(3)] main_core_good [OF main_core_frame(4)]
  main_core_good [OF main_core_frame(5)] main_core_good [OF main_core_frame(6)]
  main_core_good [OF main_core_frame(7)] main_core_good [OF main_core_frame(8)]

lemma main_good_fields:
  "main_good (s\<lparr>pending := p\<rparr>) = main_good s"
  "main_good (s\<lparr>youtube_url := u\<rparr>) = main_good s"
  "main_good (s\<lparr>source_language := l\<rparr>) = main_good s"
  "main_good (s\<lparr>currentVideoInfo := c, displayed_info := d\<rparr>) = main_good s"
  "main_good (s\<lparr>video_preview_shown := b\<rparr>) = main_good s"
  "main_good (s\<lparr>preview_content := pc, preview_modal_shown := b\<rparr>) = main_good s"
  "main_good (s\<lparr>saved_blobs := bl\<rparr>) = main_good s"
  "main_good (s\<lparr>youtube_url := u, source_language := l, video_preview_shown := b,
      currentVideoInfo := c\<rparr>) = main_good s"
  by (rule main_core_good, simp add: main_core_def)+

lemma main_good_deliver: "main_good s \<Longrightarrow> main_good (main_deliver cb r s)"
  by (cases cb; cases r)
     (simp_all add: main_good_frame main_good_fields main_good_showAlert)

lemma main_fire_base:
  "main_fire t s =
     (case act t of
        DismissAlert a \<Rightarrow> fadeOut a (base t s)
      | RemoveAlert a \<Rightarrow> remove_alert a (base t s)
      | AutoSave \<Rightarrow> base t s)"
  by (cases "act t") (simp_all add: main_fire_def base_def Let_def)

lemma now_main_fire: "now (main_fire t s) = max (now s) (due t)"
  by (cases "act t") (simp_all add: main_fire_base base_def now_fadeOut remove_alert_def)

lemma page_inv_main_fire:
  assumes p: "page_inv s" and e: "earliest (timers s) = Some t"
  shows "page_inv (main_fire t s)"
proof (cases "act t")
  case (DismissAlert a)
  then show ?thesis using page_inv_fire_dismiss [OF p e DismissAlert] by (simp add: main_fire_base)
next
  case (RemoveAlert a)
  then show ?thesis using page_inv_fire_remove [OF p e RemoveAlert] by (simp add: main_fire_base)
next
  case AutoSave
  then show ?thesis using page_inv_fire_other [OF p e AutoSave] by (simp add: main_fire_base)
qed

lemma main_elapse_good:
  "page_inv s \<Longrightarrow> now s \<le> T \<Longrightarrow>
     main_good (main_elapse_to T s) \<and> now (main_elapse_to T s) = T"
proof (induction T s rule: main_elapse_to.induct)
  case (1 T s)
  note p = "1.prems"(1)
  have m: "max (now s) T = T" using "1.prems" by simp
  show ?case
  proof (cases "earliest (timers s)")
    case None
    then have e: "timers s = []" by (simp add: earliest_None)
    have "page_inv (s\<lparr>now := T\<rparr>) \<and> settled (s\<lparr>now := T\<rparr>)"
      by (rule page_inv_advance [OF p "1.prems"(2)]) (simp add: e)
    then show ?thesis
      using None m by (subst (1 2) main_elapse_to.simps) (simp add: main_good_def)
  next
    case (Some t)
    show ?thesis
    proof (cases "due t \<le> T")
      case True
      have i: "page_inv (main_fire t s)" using p Some by (rule page_inv_main_fire)
      have n: "now (main_fire t s) \<le> T" using True "1.prems"(2) by (simp add: now_main_fire)
      have "main_good (main_elapse_to T (main_fire t s)) \<and> now (main_elapse_to T (main_fire t s)) = T"
        using "1.IH" [OF Some True i n] .
      then show ?thesis
        using Some True by (subst (1 2) main_elapse_to.simps) simp
    next
      case False
      have far: "\<forall>u\<in>set (timers s). T < due u"
        using False earliest_le [OF Some] by (auto simp: not_le intro: less_le_trans)
      have "page_inv (s\<lparr>now := T\<rparr>) \<and> settled (s\<lparr>now := T\<rparr>)"
        by (rule page_inv_advance [OF p "1.prems"(2) far])
      then show ?thesis
        using Some False m by (subst (1 2) main_elapse_to.simps) (simp add: main_good_def)
    qed
  qed
qed

lemma main_good_step: "main_good s \<Longrightarrow> main_good (main_step ev s)"
proof (cases ev)
  case (Elapse d)
  assume "main_good s"
  then have "page_inv s" by (simp add: main_good_def)
  then show ?thesis using Elapse main_elapse_good [of s "now s + d"] by simp
next
  case (Respond i r)
  assume "main_good s"
  then show ?thesis using Respond by (simp add: main_good_deliver main_good_fields)
qed (simp_all add: click_get_info_def click_download_def click_preview_def click_clear_def
       main_good_frame main_good_fields main_good_showAlert Let_def)

lemma main_good_run: "main_good s \<Longrightarrow> main_good (main_run evs s)"
  unfolding main_run_def by (induction evs arbitrary: s) (simp_all add: main_good_step)

lemma main_good_init: "main_good (main_init u l opts b1 b2)"
  by (simp add: main_init_def main_good_def page_inv_def timers_ok_def alerts_ok_def settled_def)

lemma displayed_alerts:
  assumes "page_inv s" "settled s"
  shows "length (alerts s) \<le> 1 \<and> list_all (on_time (now s)) (alerts s) \<and>
         list_all (\<lambda>x. alert_id x < next_elem s) (alerts s)"
proof -
  have "length (alerts s) \<le> 1" using assms(1) by (simp add: page_inv_def alerts_ok_def)
  moreover have "list_all (on_time (now s)) (alerts s)"
    using page_inv_on_time [OF assms] by (simp add: list_all_iff)
  moreover have "list_all (\<lambda>x. alert_id x < next_elem s) (alerts s)"
    using assms(1) by (simp add: page_inv_def alerts_ok_def alert_ok_def list_all_iff)
  ultimately show ?thesis by simp
qed

section \<open>One alert at a time, dismissed after five seconds\<close>

text \<open>
  C9, of \<open>showAlert\<close> of admin.js and of main.js alike. Whatever is displayed when
  \<open>showAlert\<close> is called, afterwards exactly one alert is: a new element with the given
  text, created at this moment and not fading, and the timeout that dismisses it is
  set, due 5000 ms later. In every state the pages reach from \<open>ready\<close>, by any events,
  at most one alert is displayed; it was created before (so that the next call
  replaces it), and it is on time: younger than 5000 ms while it does not fade, fading
  from 5000 ms on, and gone when the fade-out (400 ms) is over. The alerts are those
  that \<open>showAlert\<close> creates: the templates are not among the sources, the pages start
  without an alert and main.js finds one \<open>.download-form\<close> to put its alert into.
\<close>

theorem C9_one_alert_five_seconds:
  "map alert_message (alerts (admin_showAlert m ty s)) = [m] \<and>
   map alert_id (alerts (admin_showAlert m ty s)) = [next_elem s] \<and>
   map alert_shown_at (alerts (admin_showAlert m ty s)) = [now s] \<and>
   map alert_fading (alerts (admin_showAlert m ty s)) = [False] \<and>
   timers (admin_showAlert m ty s) =
     timers s @ [\<lparr>tid = next_timer s, due = now s + 5000, act = DismissAlert (next_elem s)\<rparr>] \<and>
   map alert_message (alerts (main_showAlert m ty p)) = [m] \<and>
   map alert_id (alerts (main_showAlert m ty p)) = [next_elem p] \<and>
   map alert_shown_at (alerts (main_showAlert m ty p)) = [now p] \<and>
   map alert_fading (alerts (main_showAlert m ty p)) = [False] \<and>
   timers (main_showAlert m ty p) =
     timers p @ [\<lparr>tid = next_timer p, due = now p + 5000, act = DismissAlert (next_elem p)\<rparr>] \<and>
   length (alerts (admin_run evs (admin_init cs fm))) \<le> 1 \<and>
   list_all (on_time (now (admin_run evs (admin_init cs fm))))
     (alerts (admin_run evs (admin_init cs fm))) \<and>
   list_all (\<lambda>x. alert_id x < next_elem (admin_run evs (admin_init cs fm)))
     (alerts (admin_run evs (admin_init cs fm))) \<and>
   length (alerts (main_run mevs (main_init u l opts b1 b2))) \<le> 1 \<and>
   list_all (on_time (now (main_run mevs (main_init u l opts b1 b2))))
     (alerts (main_run mevs (main_init u l opts b1 b2))) \<and>
   list_all (\<lambda>x. alert_id x < next_elem (main_run mevs (main_init u l opts b1 b2)))
     (alerts (main_run mevs (main_init u l opts b1 b2)))"
proof -
  have a: "good (admin_run evs (admin_init cs fm))"
    by (rule good_run [OF good_init])
  have b: "main_good (main_run mevs (main_init u l opts b1 b2))"
    by (rule main_good_run [OF main_good_init])
  have 1: "map alert_message (alerts (admin_showAlert m ty s)) = [m] \<and>
   map alert_id (alerts (admin_showAlert m ty s)) = [next_elem s] \<and>
   map alert_shown_at (alerts (admin_showAlert m ty s)) = [now s] \<and>
   map alert_fading (alerts (admin_showAlert m ty s)) = [False] \<and>
   timers (admin_showAlert m ty s) =
     timers s @ [\<lparr>tid = next_timer s, due = now s + 5000, act = DismissAlert (next_elem s)\<rparr>]"
    by (simp add: admin_showAlert_def setTimeout_def Let_def)
  have 2: "map alert_message (alerts (main_showAlert m ty p)) = [m] \<and>
   map alert_id (alerts (main_showAlert m ty p)) = [next_elem p] \<and>
   map alert_shown_at (alerts (main_showAlert m ty p)) = [now p] \<and>
   map alert_fading (alerts (main_showAlert m ty p)) = [False] \<and>
   timers (main_showAlert m ty p) =
     timers p @ [\<lparr>tid = next_timer p, due = now p + 5000, act = DismissAlert (next_elem p)\<rparr>]"
    by (simp add: main_showAlert_def setTimeout_def Let_def)
  from a have 3: "length (alerts (admin_run evs (admin_init cs fm))) \<le> 1 \<and>
     list_all (on_time (now (admin_run evs (admin_init cs fm))))
       (alerts (admin_run evs (admin_init cs fm))) \<and>
     list_all (\<lambda>x. alert_id x < next_elem (admin_run evs (admin_init cs fm)))
       (alerts (admin_run evs (admin_init cs fm)))"
    by (intro displayed_alerts) (simp_all add: good_def admin_inv_def)
  from b have 4: "length (alerts (main_run mevs (main_init u l opts b1 b2))) \<le> 1 \<and>
     list_all (on_time (now (main_run mevs (main_init u l opts b1 b2))))
       (alerts (main_run mevs (main_init u l opts b1 b2))) \<and>
     list_all (\<lambda>x. alert_id x < next_elem (main_run mevs (main_init u l opts b1 b2)))
       (alerts (main_run mevs (main_init u l opts b1 b2)))"
    by (intro displayed_alerts) (simp_all add: main_good_def)
  from 1 2 3 4 show ?thesis by simp
qed

text \<open>An alert on each page: the visitors are refreshed at time 0 on the admin page;
  Enter is pressed in the empty address field of the download page.\<close>

definition refreshed_after :: "nat \<Rightarrow> admin_state" where
  "refreshed_after d = admin_run [RefreshVisitors, AdminElapse d] page0"

definition refreshed_twice :: admin_state where
  "refreshed_twice = admin_run [RefreshVisitors, AdminElapse 1000, RefreshDownloads] page0"

definition entered_after :: "nat \<Rightarrow> main_state" where
  "entered_after d = main_run [PressEnter, Elapse d] form0"

lemmas elapse_defs = admin_elapse_to.simps admin_fire_def main_elapse_to.simps main_fire_def
  fadeOut_def remove_alert_def fade_duration_def saveSettings_def refreshVisitors_def
  refreshDownloads_def

lemma refreshed_after_eval:
  "map alert_message (alerts (refreshed_after 4999)) = [Fixed Visitors_refreshed]"
  "map alert_fading (alerts (refreshed_after 4999)) = [False]"
  "map alert_shown_at (alerts (refreshed_after 4999)) = [0]"
  "now (refreshed_after 4999) = 4999"
  "map alert_message (alerts (refreshed_after 5000)) = [Fixed Visitors_refreshed]"
  "map alert_fading (alerts (refreshed_after 5000)) = [True]"
  "now (refreshed_after 5000) = 5000"
  "map alert_fading (alerts (refreshed_after 5399)) = [True]"
  "alerts (refreshed_after 5400) = []"
  unfolding refreshed_after_def
  by (simp_all add: page0_defs admin_defs banner_defs elapse_defs)

lemma refreshed_twice_eval:
  "map alert_message (alerts refreshed_twice) = [Fixed Downloads_refreshed]"
  "map alert_shown_at (alerts refreshed_twice) = [1000]"
  unfolding refreshed_twice_def
  by (simp_all add: page0_defs admin_defs banner_defs elapse_defs)

lemma entered_after_eval:
  "map alert_message (alerts (entered_after 4999)) = [Fixed Enter_youtube_url]"
  "map alert_fading (alerts (entered_after 4999)) = [False]"
  "map alert_fading (alerts (entered_after 5000)) = [True]"
  "alerts (entered_after 5400) = []"
  unfolding entered_after_def form0_def
  by (simp_all add: main_defs elapse_defs trim_def)


text \<open>The alert of the admin page does not fade at 4999 ms, fades at 5000 ms and is
  gone at 5400 ms; a second call a second after the first leaves the second alert
  alone. So on the download page.\<close>

theorem C9_one_alert_five_seconds_witness:
  "map alert_message (alerts (refreshed_after 4999)) = [Fixed Visitors_refreshed] \<and>
   map alert_fading (alerts (refreshed_after 4999)) = [False] \<and>
   list_all (on_time 4999) (alerts (refreshed_after 4999)) \<and>
   map alert_fading (alerts (refreshed_after 5000)) = [True] \<and>
   list_all (on_time 5000) (alerts (refreshed_after 5000)) \<and>
   alerts (refreshed_after 5400) = [] \<and>
   map alert_message (alerts refreshed_twice) = [Fixed Downloads_refreshed] \<and>
   length (alerts refreshed_twice) \<le> 1 \<and>
   map alert_fading (alerts (entered_after 4999)) = [False] \<and>
   list_all (on_time (now (entered_after 4999))) (alerts (entered_after 4999)) \<and>
   map alert_fading (alerts (entered_after 5000)) = [True] \<and>
   alerts (entered_after 5400) = []"
proof -
  note c = C9_one_alert_five_seconds [where cs = template_sections and fm = empty_form
      and u = "[]" and l = "js ''en''" and opts = "[(js ''en'', js ''English'')]"
      and ?b1.0 = True and ?b2.0 = True]
  from c [where evs = "[RefreshVisitors, AdminElapse 4999]"]
  have 1: "list_all (on_time 4999) (alerts (refreshed_after 4999))"
    by (simp add: refreshed_after_def page0_def refreshed_after_eval [unfolded refreshed_after_def page0_def])
  from c [where evs = "[RefreshVisitors, AdminElapse 5000]"]
  have 2: "list_all (on_time 5000) (alerts (refreshed_after 5000))"
    by (simp add: refreshed_after_def page0_def refreshed_after_eval [unfolded refreshed_after_def page0_def])
  from c [where evs = "[RefreshVisitors, AdminElapse 1000, RefreshDownloads]"]
  have 3: "length (alerts refreshed_twice) \<le> 1"
    by (simp only: refreshed_twice_def page0_def)
  from c [where mevs = "[PressEnter, Elapse 4999]"]
  have 4: "list_all (on_time (now (entered_after 4999))) (alerts (entered_after 4999))"
    by (simp only: entered_after_def form0_def)
  from 1 2 3 4 show ?thesis
    by (simp add: refreshed_after_eval refreshed_twice_eval entered_after_eval)
qed

section \<open>The warning of the session probe\<close>

text \<open>
  What is observed of the session probe. An event answers the probe when it delivers
  a response to a pending callback of the probe; the probe succeeds when that response
  is no HTTP error. A step raises the warning when it leaves an alert with the text of
  the warning that the step created.
\<close>

definition is_http_error :: "admin_response \<Rightarrow> bool" where
  "is_http_error r = (case r of HttpError status e \<Rightarrow> True | _ \<Rightarrow> False)"

definition probe_answered :: "admin_event \<Rightarrow> admin_state \<Rightarrow> admin_response option" where
  "probe_answered ev s =
     (case ev of
        AdminRespond i r \<Rightarrow>
          if i < length (pending s) \<and> pending s ! i = SessionCb then Some r else None
      | _ \<Rightarrow> None)"

definition probe_succeeds :: "admin_event \<Rightarrow> admin_state \<Rightarrow> bool" where
  "probe_succeeds ev s =
     (case probe_answered ev s of Some r \<Rightarrow> \<not> is_http_error r | None \<Rightarrow> False)"

definition warning_raised :: "admin_event \<Rightarrow> admin_state \<Rightarrow> bool" where
  "warning_raised ev s =
     list_ex (\<lambda>a. alert_message a = Fixed Session_about_to_expire \<and> next_elem s \<le> alert_id a)
       (alerts (admin_step ev s))"

definition state_at :: "admin_event list \<Rightarrow> admin_state \<Rightarrow> nat \<Rightarrow> admin_state" where
  "state_at evs s k = admin_run (take k evs) s"

text \<open>No alert with an identity from \<open>n\<close> on carries the text of the warning.\<close>

definition no_new_warning :: "nat \<Rightarrow> admin_state \<Rightarrow> bool" where
  "no_new_warning n s \<longleftrightarrow>
     (\<forall>a\<in>set (alerts s). n \<le> alert_id a \<longrightarrow> alert_message a \<noteq> Fixed Session_about_to_expire)"

lemma good_alert_ids: "good s \<Longrightarrow> x \<in> set (alerts s) \<Longrightarrow> alert_id x < next_elem s"
  by (simp add: good_def admin_inv_def page_inv_def alerts_ok_def alert_ok_def)

lemma no_new_warning_old: "good s \<Longrightarrow> no_new_warning (next_elem s) s"
  unfolding no_new_warning_def using good_alert_ids by fastforce

lemma nnw_showAlert:
  "m \<noteq> Fixed Session_about_to_expire \<Longrightarrow> no_new_warning n (admin_showAlert m ty s)"
  by (simp add: no_new_warning_def admin_showAlert_def setTimeout_def Let_def)

lemma core_flag: "core s' = core s \<Longrightarrow> sessionWarningShown s' = sessionWarningShown s"
  by (simp add: core_def)

lemma nnw_core: "core s' = core s \<Longrightarrow> no_new_warning n s' = no_new_warning n s"
  by (simp add: no_new_warning_def core_def)

lemmas core_all = core_send core_loaders core_updates

lemmas flag_frame = core_all [THEN core_flag]
lemmas nnw_frame = core_all [THEN nnw_core]

lemma flag_more:
  "sessionWarningShown (admin_showAlert msg ty s) = sessionWarningShown s"
  "sessionWarningShown (fadeOut a s) = sessionWarningShown s"
  "sessionWarningShown (remove_alert a s) = sessionWarningShown s"
  "sessionWarningShown (settings_input s) = sessionWarningShown s"
  by (simp_all add: admin_showAlert_def setTimeout_def fadeOut_def remove_alert_def
        settings_input_def clearTimeout_def Let_def split: option.splits)

lemma nnw_more:
  "no_new_warning n (s\<lparr>pending := p\<rparr>) = no_new_warning n s"
  "no_new_warning n (s\<lparr>exported := x\<rparr>) = no_new_warning n s"
  "no_new_warning n (s\<lparr>views := v\<rparr>) = no_new_warning n s"
  "no_new_warning n (s\<lparr>modal := mo\<rparr>) = no_new_warning n s"
  "no_new_warning n (settings_input s) = no_new_warning n s"
  by (simp_all add: no_new_warning_def settings_input_fields)

text \<open>What every step but an answer to the probe does: it leaves the flag alone and
  raises no warning.\<close>

definition calm :: "nat \<Rightarrow> admin_state \<Rightarrow> admin_state \<Rightarrow> bool" where
  "calm n s s' \<longleftrightarrow>
     sessionWarningShown s' = sessionWarningShown s \<and> (no_new_warning n s \<longrightarrow> no_new_warning n s')"

lemma calm_on_dashboard: "calm n s (on_dashboard r s)"
  by (cases r) (simp_all add: calm_def on_dashboard_def flag_frame nnw_frame)

lemma calm_on_format_chart: "calm n s (on_format_chart r s)"
  by (cases r) (simp_all add: calm_def on_format_chart_def flag_frame nnw_frame split: option.splits)

lemma calm_on_visitors: "calm n s (on_visitors r s)"
  by (cases r) (simp_all add: calm_def on_visitors_def flag_frame nnw_frame)

lemma calm_on_banners: "calm n s (on_banners r s)"
  by (cases r) (simp_all add: calm_def on_banners_def flag_frame nnw_frame)

lemma calm_on_downloads: "calm n s (on_downloads r s)"
  by (cases r) (simp_all add: calm_def on_downloads_def flag_frame nnw_frame)

lemma calm_on_settings: "calm n s (on_settings r s)"
  by (cases r) (simp_all add: calm_def on_settings_def flag_frame nnw_frame)

lemma calm_on_banner_data: "calm n s (on_banner_data i r s)"
  by (cases r) (simp_all add: calm_def on_banner_data_def nnw_more split: option.splits)

lemma calm_on_upload: "calm n s (on_upload d e r s)"
  by (cases r) (simp_all add: calm_def on_upload_def flag_frame nnw_frame flag_more nnw_showAlert)

lemma calm_on_save_banner: "calm n s (on_save_banner r s)"
  by (cases r) (simp_all add: calm_def on_save_banner_def flag_frame nnw_frame flag_more nnw_showAlert)

lemma calm_on_delete_banner: "calm n s (on_delete_banner r s)"
  by (cases r) (simp_all add: calm_def on_delete_banner_def flag_frame nnw_frame flag_more nnw_showAlert)

lemma calm_on_save_settings: "calm n s (on_save_settings r s)"
  by (cases r) (simp_all add: calm_def on_save_settings_def flag_more nnw_showAlert)

lemma calm_deliver: "cb \<noteq> SessionCb \<Longrightarrow> calm n s (admin_deliver cb r s)"
  by (cases cb)
     (simp_all add: admin_deliver_def calm_on_dashboard calm_on_format_chart calm_on_visitors
        calm_on_banners calm_on_downloads calm_on_settings calm_on_banner_data calm_on_upload
        calm_on_save_banner calm_on_delete_banner calm_on_save_settings)

lemma nnw_subset:
  "set (alerts s') \<subseteq> set (alerts s) \<Longrightarrow> no_new_warning n s \<Longrightarrow> no_new_warning n s'"
  unfolding no_new_warning_def by blast

lemma nnw_fadeOut: "no_new_warning n s \<Longrightarrow> no_new_warning n (fadeOut a s)"
  unfolding no_new_warning_def fadeOut_def setTimeout_def by auto

lemma calm_fire: "calm n s (admin_fire t s)"
proof (cases "act t")
  case (DismissAlert a)
  have "no_new_warning n s \<Longrightarrow> no_new_warning n (base t s)"
    by (erule nnw_subset [rotated]) (simp add: base_def)
  then have "no_new_warning n s \<Longrightarrow> no_new_warning n (fadeOut a (base t s))"
    by (simp add: nnw_fadeOut)
  then show ?thesis
    using DismissAlert by (simp add: calm_def admin_fire_base flag_more base_def)
next
  case (RemoveAlert a)
  have "no_new_warning n s \<Longrightarrow> no_new_warning n (remove_alert a (base t s))"
    by (erule nnw_subset [rotated]) (simp add: base_def remove_alert_def)
  then show ?thesis
    using RemoveAlert by (simp add: calm_def admin_fire_base flag_more base_def)
next
  case AutoSave
  then show ?thesis
    by (simp add: calm_def admin_fire_base base_def flag_frame flag_more nnw_frame nnw_showAlert)
qed

lemma calm_trans: "calm n s s' \<Longrightarrow> calm n s' s'' \<Longrightarrow> calm n s s''"
  by (simp add: calm_def)

lemma calm_elapse: "calm n s (admin_elapse_to T s)"
proof (induction T s rule: admin_elapse_to.induct)
  case (1 T s)
  show ?case
  proof (cases "earliest (timers s)")
    case None
    then show ?thesis
      by (subst admin_elapse_to.simps) (simp add: calm_def no_new_warning_def)
  next
    case (Some t)
    show ?thesis
    proof (cases "due t \<le> T")
      case True
      have "calm n s (admin_elapse_to T (admin_fire t s))"
        using calm_fire "1.IH" [OF Some True] by (rule calm_trans)
      then show ?thesis using Some True by (subst admin_elapse_to.simps) simp
    next
      case False
      then show ?thesis using Some
        by (subst admin_elapse_to.simps) (simp add: calm_def no_new_warning_def)
    qed
  qed
qed

lemma calm_step: "probe_answered ev s = None \<Longrightarrow> calm n s (admin_step ev s)"
proof (cases ev)
  case (AdminRespond i r)
  assume p: "probe_answered ev s = None"
  show ?thesis
  proof (cases "i < length (pending s)")
    case True
    with p AdminRespond have "pending s ! i \<noteq> SessionCb"
      by (simp add: probe_answered_def split: if_splits)
    then have "calm n (s\<lparr>pending := take i (pending s) @ drop (Suc i) (pending s)\<rparr>)
        (admin_deliver (pending s ! i) r (s\<lparr>pending := take i (pending s) @ drop (Suc i) (pending s)\<rparr>))"
      by (rule calm_deliver)
    then show ?thesis using True AdminRespond by (simp add: calm_def nnw_more)
  next
    case False
    then show ?thesis using AdminRespond by (simp add: calm_def)
  qed
next
  case (AdminElapse d)
  then show ?thesis by (simp add: calm_elapse)
next
  case (TypeSetting i v)
  then show ?thesis by (simp add: calm_def type_setting_def flag_more nnw_more)
next
  case (ExportData ty vt dt)
  then show ?thesis
    by (simp add: calm_def exportData_def downloadCSV_def flag_more nnw_showAlert Let_def
          split: prod.splits)
next
  case SubmitBannerForm
  then show ?thesis
    by (simp add: calm_def submit_banner_form_def banner_form_submit_def banner_form_validate_def
          validateBannerForm_def flag_frame flag_more nnw_frame nnw_showAlert Let_def
          split: option.splits)
qed (simp_all add: calm_def flag_frame flag_more nnw_frame nnw_showAlert interval_fires_def
       click_delete_banner_def bulkDeleteBanners_def refreshVisitors_def refreshDownloads_def
       split: interval_action.splits)

lemma admin_run_append: "admin_run (a @ b) s = admin_run b (admin_run a s)"
  by (simp add: admin_run_def)

lemma state_at_Suc:
  "k < length evs \<Longrightarrow> state_at evs s (Suc k) = admin_step (evs ! k) (state_at evs s k)"
  by (simp add: state_at_def take_Suc_conv_app_nth admin_run_append) (simp add: admin_run_def)

lemma good_state_at: "good s \<Longrightarrow> good (state_at evs s k)"
  by (simp add: state_at_def good_run)

lemma on_session_old_alerts:
  assumes g: "good s" and w: "list_ex (\<lambda>a. alert_message a = Fixed Session_about_to_expire \<and> n \<le> alert_id a) (alerts (on_session r s))"
    and n: "next_elem s \<le> n"
  shows "\<not> sessionWarningShown s \<and> sessionWarningShown (on_session r s) \<and>
         (\<exists>e. r = HttpError 401 e)"
proof -
  have old: "\<not> list_ex (\<lambda>a. alert_message a = Fixed Session_about_to_expire \<and> n \<le> alert_id a) (alerts s)"
    using good_alert_ids [OF g] n by (fastforce simp: list_ex_iff)
  show ?thesis
  proof (cases r)
    case (HttpError status e)
    show ?thesis
    proof (cases "status = 401 \<and> \<not> sessionWarningShown s")
      case True
      then show ?thesis
        using HttpError by (simp add: on_session_def flag_more)
    next
      case False
      then have "on_session r s = s" using HttpError by (auto simp: on_session_def)
      then show ?thesis using w old by simp
    qed
  qed (use w old in \<open>simp_all add: on_session_def\<close>)
qed

lemma warning_needs_probe:
  assumes g: "good s" and w: "warning_raised ev s"
  shows "\<not> sessionWarningShown s \<and> sessionWarningShown (admin_step ev s) \<and>
         (\<exists>e. probe_answered ev s = Some (HttpError 401 e))"
proof (cases "probe_answered ev s")
  case None
  have "no_new_warning (next_elem s) s" using g by (rule no_new_warning_old)
  moreover have "calm (next_elem s) s (admin_step ev s)" using None by (rule calm_step)
  ultimately have "no_new_warning (next_elem s) (admin_step ev s)" by (simp add: calm_def)
  then have False using w unfolding warning_raised_def no_new_warning_def list_ex_iff by blast
  then show ?thesis ..
next
  case (Some r)
  then obtain i where ev: "ev = AdminRespond i r" and i: "i < length (pending s)"
    and cb: "pending s ! i = SessionCb"
    by (auto simp: probe_answered_def split: admin_event.splits if_splits)
  let ?s = "s\<lparr>pending := take i (pending s) @ drop (Suc i) (pending s)\<rparr>"
  have st: "admin_step ev s = on_session r ?s"
    using ev i cb by (simp add: admin_deliver_def)
  have g': "good ?s" using g by (simp add: good_fields)
  have "list_ex (\<lambda>a. alert_message a = Fixed Session_about_to_expire \<and> next_elem s \<le> alert_id a)
      (alerts (on_session r ?s))"
    using w st by (simp add: warning_raised_def)
  from on_session_old_alerts [OF g' this] show ?thesis using st Some by auto
qed

lemma flag_kept:
  assumes f: "sessionWarningShown s" and n: "\<not> probe_succeeds ev s"
  shows "sessionWarningShown (admin_step ev s)"
proof (cases "probe_answered ev s")
  case None
  then have "calm 0 s (admin_step ev s)" by (rule calm_step)
  then show ?thesis using f by (simp add: calm_def)
next
  case (Some r)
  then obtain i where ev: "ev = AdminRespond i r" and i: "i < length (pending s)"
    and cb: "pending s ! i = SessionCb"
    by (auto simp: probe_answered_def split: admin_event.splits if_splits)
  from n Some have "is_http_error r" by (simp add: probe_succeeds_def)
  then obtain status e where r: "r = HttpError status e"
    by (cases r) (simp_all add: is_http_error_def)
  show ?thesis using ev i cb r f by (simp add: admin_deliver_def on_session_def)
qed

lemma flag_stays:
  "sessionWarningShown s \<Longrightarrow>
   (\<forall>k<length es. \<not> probe_succeeds (es ! k) (admin_run (take k es) s)) \<Longrightarrow>
   sessionWarningShown (admin_run es s)"
proof (induction es arbitrary: s)
  case Nil
  then show ?case by (simp add: admin_run_def)
next
  case (Cons e es)
  have "\<not> probe_succeeds e s" using Cons.prems(2) [rule_format, of 0] by (simp add: admin_run_def)
  with Cons.prems(1) have f: "sessionWarningShown (admin_step e s)" by (rule flag_kept)
  have "\<forall>k<length es. \<not> probe_succeeds (es ! k) (admin_run (take k es) (admin_step e s))"
  proof (intro allI impI)
    fix k assume "k < length es"
    then show "\<not> probe_succeeds (es ! k) (admin_run (take k es) (admin_step e s))"
      using Cons.prems(2) [rule_format, of "Suc k"] by (simp add: admin_run_def)
  qed
  with f have "sessionWarningShown (admin_run es (admin_step e s))" by (rule Cons.IH)
  then show ?case by (simp add: admin_run_def)
qed

lemma state_at_split:
  assumes "i < j" "j \<le> length evs"
  shows "state_at evs s j = admin_run (drop (Suc i) (take j evs)) (state_at evs s (Suc i))"
    and "\<And>k. k < j - Suc i \<Longrightarrow>
      admin_run (take k (drop (Suc i) (take j evs))) (state_at evs s (Suc i)) = state_at evs s (Suc i + k)"
    and "\<And>k. k < j - Suc i \<Longrightarrow> drop (Suc i) (take j evs) ! k = evs ! (Suc i + k)"
proof -
  have "take (Suc i) (take j evs) = take (Suc i) evs"
    using assms by (simp add: min_def)
  then have a: "take j evs = take (Suc i) evs @ drop (Suc i) (take j evs)"
    using append_take_drop_id [of "Suc i" "take j evs"] by simp
  show "state_at evs s j = admin_run (drop (Suc i) (take j evs)) (state_at evs s (Suc i))"
    unfolding state_at_def by (subst a) (simp add: admin_run_append)
  fix k assume k: "k < j - Suc i"
  have "take k (drop (Suc i) (take j evs)) = take k (drop (Suc i) evs)"
    using k by (simp add: drop_take min_def)
  moreover have "take (Suc i + k) evs = take (Suc i) evs @ take k (drop (Suc i) evs)"
    by (rule take_add)
  ultimately have "take (Suc i + k) evs = take (Suc i) evs @ take k (drop (Suc i) (take j evs))"
    by simp
  then show "admin_run (take k (drop (Suc i) (take j evs))) (state_at evs s (Suc i)) = state_at evs s (Suc i + k)"
    unfolding state_at_def by (simp add: admin_run_append)
  show "drop (Suc i) (take j evs) ! k = evs ! (Suc i + k)"
    using assms k by simp
qed

lemma no_two_warnings:
  assumes g: "good s" and ij: "i < j" and j: "j < length evs"
    and wi: "warning_raised (evs ! i) (state_at evs s i)"
    and wj: "warning_raised (evs ! j) (state_at evs s j)"
  shows "\<exists>k. i < k \<and> k < j \<and> probe_succeeds (evs ! k) (state_at evs s k)"
proof (rule ccontr)
  assume no: "\<not> (\<exists>k. i < k \<and> k < j \<and> probe_succeeds (evs ! k) (state_at evs s k))"
  have i: "i < length evs" using ij j by simp
  have f1: "sessionWarningShown (state_at evs s (Suc i))"
    using warning_needs_probe [OF good_state_at [OF g] wi] by (simp add: state_at_Suc [OF i])
  have jl: "j \<le> length evs" using j by simp
  note sp = state_at_split [OF ij jl]
  have "\<forall>k<length (drop (Suc i) (take j evs)).
      \<not> probe_succeeds (drop (Suc i) (take j evs) ! k)
          (admin_run (take k (drop (Suc i) (take j evs))) (state_at evs s (Suc i)))"
  proof (intro allI impI)
    fix k assume "k < length (drop (Suc i) (take j evs))"
    then have k: "k < j - Suc i" using jl by simp
    have "\<not> probe_succeeds (evs ! (Suc i + k)) (state_at evs s (Suc i + k))"
      using no k by auto
    then show "\<not> probe_succeeds (drop (Suc i) (take j evs) ! k)
          (admin_run (take k (drop (Suc i) (take j evs))) (state_at evs s (Suc i)))"
      unfolding sp(2) [OF k] sp(3) [OF k] .
  qed
  with f1 have "sessionWarningShown (admin_run (drop (Suc i) (take j evs)) (state_at evs s (Suc i)))"
    by (rule flag_stays)
  then have "sessionWarningShown (state_at evs s j)" by (simp only: sp(1))
  moreover have "\<not> sessionWarningShown (state_at evs s j)"
    using warning_needs_probe [OF good_state_at [OF g] wj] by simp
  ultimately show False by simp
qed

lemma success_resets:
  assumes "probe_succeeds ev s"
  shows "\<not> sessionWarningShown (admin_step ev s)"
proof -
  from assms obtain r where p: "probe_answered ev s = Some r" and ok: "\<not> is_http_error r"
    by (auto simp: probe_succeeds_def split: option.splits)
  then obtain i where ev: "ev = AdminRespond i r" and i: "i < length (pending s)"
    and cb: "pending s ! i = SessionCb"
    by (auto simp: probe_answered_def split: admin_event.splits if_splits)
  show ?thesis using ev i cb ok
    by (cases r) (simp_all add: admin_deliver_def on_session_def is_http_error_def)
qed

lemma failure_warns:
  assumes "\<not> sessionWarningShown s" and "probe_answered ev s = Some (HttpError 401 e)"
  shows "warning_raised ev s \<and> sessionWarningShown (admin_step ev s)"
proof -
  from assms(2) obtain i where ev: "ev = AdminRespond i (HttpError 401 e)" and i: "i < length (pending s)"
    and cb: "pending s ! i = SessionCb"
    by (auto simp: probe_answered_def split: admin_event.splits if_splits)
  show ?thesis using ev i cb assms(1)
    by (simp add: warning_raised_def admin_deliver_def on_session_def admin_showAlert_def
          setTimeout_def Let_def)
qed

lemma failure_while_warned:
  assumes g: "good s" and f: "sessionWarningShown s"
    and "probe_answered ev s = Some (HttpError status e)"
  shows "\<not> warning_raised ev s \<and> sessionWarningShown (admin_step ev s)"
proof -
  have "\<not> warning_raised ev s" using warning_needs_probe [OF g] f by blast
  moreover have "\<not> probe_succeeds ev s" using assms(3) by (simp add: probe_succeeds_def is_http_error_def)
  then have "sessionWarningShown (admin_step ev s)" using f flag_kept by blast
  ultimately show ?thesis by simp
qed

text \<open>
  C6. The 5-minute interval is set at \<open>ready\<close> and each of its firings sends one probe,
  a GET of the stats endpoint. Along every run of the page from \<open>ready\<close>:

  \<^item> between two steps that raise the warning, a probe succeeds;
  \<^item> the warning is raised only by a probe that is answered with 401;
  \<^item> a probe answered with 401 raises the warning exactly when the flag is not set,
    and the flag is set afterwards;
  \<^item> a probe that succeeds resets the flag, so that the next 401 warns again.

  The flag is not set at \<open>ready\<close>.
\<close>

theorem C6_one_warning_per_streak:
  "(i < j \<and> j < length evs \<and>
    warning_raised (evs ! i) (state_at evs (admin_init cs fm) i) \<and>
    warning_raised (evs ! j) (state_at evs (admin_init cs fm) j) \<longrightarrow>
      (\<exists>k. i < k \<and> k < j \<and> probe_succeeds (evs ! k) (state_at evs (admin_init cs fm) k))) \<and>
   (warning_raised ev (admin_run evs (admin_init cs fm)) \<longrightarrow>
      (\<exists>e. probe_answered ev (admin_run evs (admin_init cs fm)) = Some (HttpError 401 e))) \<and>
   (probe_answered ev (admin_run evs (admin_init cs fm)) = Some (HttpError 401 e) \<longrightarrow>
      warning_raised ev (admin_run evs (admin_init cs fm)) =
        (\<not> sessionWarningShown (admin_run evs (admin_init cs fm))) \<and>
      sessionWarningShown (admin_step ev (admin_run evs (admin_init cs fm)))) \<and>
   (probe_succeeds ev (admin_run evs (admin_init cs fm)) \<longrightarrow>
      \<not> sessionWarningShown (admin_step ev (admin_run evs (admin_init cs fm)))) \<and>
   \<not> sessionWarningShown (admin_init cs fm) \<and>
   (300000, Session_check) \<in> set (intervals (admin_init cs fm)) \<and>
   requests (admin_step (IntervalFires Session_check) s) =
     requests s @ [get_request (js ''/admin/api/stats'')] \<and>
   pending (admin_step (IntervalFires Session_check) s) = pending s @ [SessionCb]"
proof (intro conjI impI)
  let ?r = "admin_run evs (admin_init cs fm)"
  have g: "good ?r" by (rule good_run [OF good_init])
  {
    assume "i < j \<and> j < length evs \<and>
      warning_raised (evs ! i) (state_at evs (admin_init cs fm) i) \<and>
      warning_raised (evs ! j) (state_at evs (admin_init cs fm) j)"
    then show "\<exists>k. i < k \<and> k < j \<and> probe_succeeds (evs ! k) (state_at evs (admin_init cs fm) k)"
      using no_two_warnings [OF good_init, of i j evs cs fm] by blast
  }
  {
    assume "warning_raised ev ?r"
    then show "\<exists>e. probe_answered ev ?r = Some (HttpError 401 e)"
      using warning_needs_probe [OF g] by blast
  }
  {
    assume p: "probe_answered ev ?r = Some (HttpError 401 e)"
    show "warning_raised ev ?r = (\<not> sessionWarningShown ?r)"
      using failure_warns [OF _ p] failure_while_warned [OF g _ p] by blast
    show "sessionWarningShown (admin_step ev ?r)"
      using failure_warns [OF _ p] failure_while_warned [OF g _ p] by blast
  }
  {
    assume "probe_succeeds ev ?r"
    then show "\<not> sessionWarningShown (admin_step ev ?r)" by (rule success_resets)
  }
  show "\<not> sessionWarningShown (admin_init cs fm)"
    by (simp add: admin_init_def loadDashboardData_def send_def)
  show "(300000, Session_check) \<in> set (intervals (admin_init cs fm))"
    by (simp add: admin_init_def loadDashboardData_def send_def)
  show "requests (admin_step (IntervalFires Session_check) s) =
     requests s @ [get_request (js ''/admin/api/stats'')]"
    by (simp add: interval_fires_def session_check_def send_def get_request_def)
  show "pending (admin_step (IntervalFires Session_check) s) = pending s @ [SessionCb]"
    by (simp add: interval_fires_def session_check_def send_def)
qed

text \<open>Four probes on the example page: the first two and the last are answered with
  401, the third with the statistics. The two requests of \<open>init\<close> are still pending,
  so the probe is the third pending callback.\<close>

definition probes :: "admin_event list" where
  "probes =
     [IntervalFires Session_check, AdminRespond 2 (HttpError 401 (js ''UNAUTHORIZED'')),
      IntervalFires Session_check, AdminRespond 2 (HttpError 401 (js ''UNAUTHORIZED'')),
      IntervalFires Session_check, AdminRespond 2 (Done []),
      IntervalFires Session_check, AdminRespond 2 (HttpError 401 (js ''UNAUTHORIZED''))]"

lemmas probe_defs = probes_def state_at_def warning_raised_def probe_succeeds_def
  probe_answered_def is_http_error_def admin_deliver_def on_session_def

lemma probes_eval:
  "length probes = 8"
  "warning_raised (probes ! 1) (state_at probes page0 1)"
  "\<not> warning_raised (probes ! 3) (state_at probes page0 3)"
  "probe_succeeds (probes ! 5) (state_at probes page0 5)"
  "warning_raised (probes ! 7) (state_at probes page0 7)"
  "sessionWarningShown (state_at probes page0 2)"
  "sessionWarningShown (state_at probes page0 3)"
  "sessionWarningShown (state_at probes page0 4)"
  "\<not> sessionWarningShown (state_at probes page0 6)"
  "sessionWarningShown (state_at probes page0 8)"
  "probe_answered (probes ! 3) (state_at probes page0 3) = Some (HttpError 401 (js ''UNAUTHORIZED''))"
  by (simp_all add: probe_defs page0_defs admin_defs banner_defs)


text \<open>The first 401 warns, the second does not, the success resets the flag and the
  last 401 warns again.\<close>

theorem C6_one_warning_per_streak_witness:
  "warning_raised (probes ! 1) (state_at probes page0 1) \<and>
   warning_raised (probes ! 7) (state_at probes page0 7) \<and>
   (\<exists>k. 1 < k \<and> k < 7 \<and> probe_succeeds (probes ! k) (state_at probes page0 k)) \<and>
   probe_answered (probes ! 3) (state_at probes page0 3) =
     Some (HttpError 401 (js ''UNAUTHORIZED'')) \<and>
   sessionWarningShown (state_at probes page0 3) \<and>
   \<not> warning_raised (probes ! 3) (state_at probes page0 3) \<and>
   sessionWarningShown (admin_step (probes ! 3) (state_at probes page0 3)) \<and>
   probe_succeeds (probes ! 5) (state_at probes page0 5) \<and>
   \<not> sessionWarningShown (admin_step (probes ! 5) (state_at probes page0 5)) \<and>
   (\<exists>e. probe_answered (probes ! 7) (state_at probes page0 7) = Some (HttpError 401 e))"
proof -
  note c = C6_one_warning_per_streak [where cs = template_sections and fm = empty_form,
      folded page0_def]
  have a: "\<exists>k. 1 < k \<and> k < 7 \<and> probe_succeeds (probes ! k) (state_at probes page0 k)"
    using c [where evs = probes and i = 1 and j = 7] probes_eval(1,2,5) by simp
  have b: "\<not> warning_raised (probes ! 3) (state_at probes page0 3)"
    "sessionWarningShown (admin_step (probes ! 3) (state_at probes page0 3))"
    using c [where evs = "take 3 probes" and ev = "probes ! 3"
               and e = "js ''UNAUTHORIZED''", folded state_at_def] probes_eval(7,11)
    by simp_all
  have d: "\<not> sessionWarningShown (admin_step (probes ! 5) (state_at probes page0 5))"
    using c [where evs = "take 5 probes" and ev = "probes ! 5", folded state_at_def]
      probes_eval(4) by simp
  have e: "\<exists>e. probe_answered (probes ! 7) (state_at probes page0 7) = Some (HttpError 401 e)"
    using c [where evs = "take 7 probes" and ev = "probes ! 7", folded state_at_def]
      probes_eval(5) by simp
  from a b d e probes_eval show ?thesis by simp
qed

section \<open>The auto-save of the settings form\<close>

text \<open>What a save sends, and what the page shows of the network and of the form.\<close>

definition autosave_request :: "setting list \<Rightarrow> request" where
  "autosave_request inputs =
     \<lparr>req_url = js ''/admin/api/settings'', req_method = js ''POST'',
      req_body = SettingsJson (collect_settings inputs)\<rparr>"

definition net :: "admin_state \<Rightarrow> request list \<times> admin_cb list \<times> views" where
  "net s = (requests s, pending s, views s)"

lemma net_base: "net (base t s) = net s"
  by (simp add: net_def base_def)

lemma net_fadeOut: "net (fadeOut a s) = net s"
  by (simp add: net_def fadeOut_def setTimeout_def)

lemma net_remove_alert: "net (remove_alert a s) = net s"
  by (simp add: net_def remove_alert_def)

lemma net_fire:
  "act t \<noteq> AutoSave \<Longrightarrow> net (admin_fire t s) = net s"
  by (cases "act t") (simp_all add: admin_fire_base net_fadeOut net_remove_alert net_base)

lemma autosaves_fire:
  assumes "act t \<noteq> AutoSave"
  shows "filter (\<lambda>u. act u = AutoSave) (timers (admin_fire t s)) =
         filter (\<lambda>u. act u = AutoSave) (filter (\<lambda>u. tid u \<noteq> tid t) (timers s))"
proof (cases "act t")
  case (DismissAlert a)
  then show ?thesis
    by (simp add: admin_fire_base fadeOut_def setTimeout_def base_def)
next
  case (RemoveAlert a)
  then show ?thesis by (simp add: admin_fire_base remove_alert_def base_def)
next
  case AutoSave
  with assms show ?thesis by simp
qed

text \<open>Time that passes before any auto-save is due sends nothing.\<close>

lemma elapse_before:
  "(\<forall>u\<in>set (timers s). act u = AutoSave \<longrightarrow> T < due u) \<Longrightarrow>
     net (admin_elapse_to T s) = net s"
proof (induction T s rule: admin_elapse_to.induct)
  case (1 T s)
  show ?case
  proof (cases "earliest (timers s)")
    case None
    then show ?thesis by (subst admin_elapse_to.simps) (simp add: net_def)
  next
    case (Some t)
    show ?thesis
    proof (cases "due t \<le> T")
      case True
      have m: "t \<in> set (timers s)" using Some by (rule earliest_mem)
      with "1.prems" True have na: "act t \<noteq> AutoSave" by auto
      have f: "filter (\<lambda>u. act u = AutoSave) (timers (admin_fire t s)) =
          filter (\<lambda>u. act u = AutoSave) (filter (\<lambda>u. tid u \<noteq> tid t) (timers s))"
        using na by (rule autosaves_fire)
      have "\<forall>u\<in>set (timers (admin_fire t s)). act u = AutoSave \<longrightarrow> T < due u"
      proof (intro ballI impI)
        fix u assume "u \<in> set (timers (admin_fire t s))" "act u = AutoSave"
        then have "u \<in> set (filter (\<lambda>u. act u = AutoSave) (timers (admin_fire t s)))" by simp
        then have "u \<in> set (timers s)" "act u = AutoSave" unfolding f by simp_all
        then show "T < due u" using "1.prems" by blast
      qed
      then have ih: "net (admin_elapse_to T (admin_fire t s)) = net (admin_fire t s)"
        by (rule "1.IH" [OF Some True])
      show ?thesis
        using Some True ih net_fire [OF na]
        by (subst admin_elapse_to.simps) simp
    next
      case False
      then show ?thesis using Some by (subst admin_elapse_to.simps) (simp add: net_def)
    qed
  qed
qed

text \<open>Typing into a field of the settings form.\<close>

definition typed_value :: "nat \<Rightarrow> jsstring \<Rightarrow> setting list \<Rightarrow> setting list" where
  "typed_value i v inputs = inputs[i := (inputs ! i)\<lparr>set_value := v\<rparr>]"

lemma type_setting_fields:
  assumes g: "good s" and i: "i < length (settings_inputs (views s))"
  shows "good (admin_step (TypeSetting i v) s)"
    and "filter (\<lambda>u. act u = AutoSave) (timers (admin_step (TypeSetting i v) s)) =
           [\<lparr>tid = next_timer s, due = now s + 2000, act = AutoSave\<rparr>]"
    and "requests (admin_step (TypeSetting i v) s) = requests s"
    and "pending (admin_step (TypeSetting i v) s) = pending s"
    and "settings_inputs (views (admin_step (TypeSetting i v) s)) =
           typed_value i v (settings_inputs (views s))"
    and "now (admin_step (TypeSetting i v) s) = now s"
proof -
  let ?s' = "s\<lparr>views := (views s)\<lparr>settings_inputs := typed_value i v (settings_inputs (views s))\<rparr>\<rparr>"
  have st: "admin_step (TypeSetting i v) s = settings_input ?s'"
    using i by (simp add: type_setting_def typed_value_def)
  have g': "good ?s'" using g by (simp add: good_fields)
  show "good (admin_step (TypeSetting i v) s)"
    unfolding st using g' by (rule good_settings_input)
  have au: "autosave_ok ?s'" using g' by (simp add: good_def admin_inv_def)
  have "filter (\<lambda>u. act u = AutoSave) (cleared ?s') = []"
    using cleared_no_autosave [OF au] by (simp add: filter_empty_conv)
  then show "filter (\<lambda>u. act u = AutoSave) (timers (admin_step (TypeSetting i v) s)) =
           [\<lparr>tid = next_timer s, due = now s + 2000, act = AutoSave\<rparr>]"
    unfolding st by (simp add: settings_input_fields)
  show "requests (admin_step (TypeSetting i v) s) = requests s"
    "pending (admin_step (TypeSetting i v) s) = pending s"
    "settings_inputs (views (admin_step (TypeSetting i v) s)) =
           typed_value i v (settings_inputs (views s))"
    unfolding st
    by (simp_all add: settings_input_def setTimeout_def clearTimeout_def Let_def split: option.splits)
  show "now (admin_step (TypeSetting i v) s) = now s"
    unfolding st by (simp add: settings_input_fields)
qed

text \<open>A burst of typing: each input is followed by a pause.\<close>

fun typing :: "(nat \<times> jsstring \<times> nat) list \<Rightarrow> admin_event list" where
  "typing [] = []"
| "typing ((i, v, gap) # b) = TypeSetting i v # AdminElapse gap # typing b"

text \<open>The fields after the burst, and the time the burst takes.\<close>

fun typed :: "(nat \<times> jsstring \<times> nat) list \<Rightarrow> setting list \<Rightarrow> setting list" where
  "typed [] inputs = inputs"
| "typed ((i, v, gap) # b) inputs = typed b (typed_value i v inputs)"

fun duration :: "(nat \<times> jsstring \<times> nat) list \<Rightarrow> nat" where
  "duration [] = 0"
| "duration ((i, v, gap) # b) = gap + duration b"

text \<open>Every input of the burst goes to a field of the form, and the pause after it
  is shorter than two seconds.\<close>

definition short_pauses :: "nat \<Rightarrow> (nat \<times> jsstring \<times> nat) list \<Rightarrow> bool" where
  "short_pauses n b = list_all (\<lambda>(i, v, gap). i < n \<and> gap < 2000) b"

lemma length_typed_value [simp]: "length (typed_value i v inputs) = length inputs"
  by (simp add: typed_value_def)

lemma burst:
  "good s \<Longrightarrow> short_pauses (length (settings_inputs (views s))) b \<Longrightarrow>
     good (admin_run (typing b) s) \<and>
     requests (admin_run (typing b) s) = requests s \<and>
     pending (admin_run (typing b) s) = pending s \<and>
     settings_inputs (views (admin_run (typing b) s)) = typed b (settings_inputs (views s)) \<and>
     now (admin_run (typing b) s) = now s + duration b"
proof (induction b arbitrary: s)
  case Nil
  then show ?case by (simp add: admin_run_def)
next
  case (Cons x b)
  obtain i v gap where x: "x = (i, v, gap)" by (cases x) auto
  from Cons.prems(2) have i: "i < length (settings_inputs (views s))" and gap: "gap < 2000"
    and rest: "short_pauses (length (settings_inputs (views s))) b"
    by (simp_all add: short_pauses_def x)
  let ?s1 = "type_setting i v s"
  note f = type_setting_fields [OF Cons.prems(1) i, of v, unfolded admin_step.simps]
  let ?s2 = "admin_elapse_to (now ?s1 + gap) ?s1"
  have far: "\<forall>u\<in>set (timers ?s1). act u = AutoSave \<longrightarrow> now ?s1 + gap < due u"
  proof (intro ballI impI)
    fix u assume "u \<in> set (timers ?s1)" "act u = AutoSave"
    then have "u \<in> set (filter (\<lambda>u. act u = AutoSave) (timers ?s1))" by simp
    then have "u = \<lparr>tid = next_timer s, due = now s + 2000, act = AutoSave\<rparr>"
      unfolding f(2) by simp
    then show "now ?s1 + gap < due u" using gap by (simp add: f(6))
  qed
  have n2: "net ?s2 = net ?s1" using far by (rule elapse_before)
  have eg: "good ?s2 \<and> now ?s2 = now ?s1 + gap"
    using f(1) by (intro elapse_good) (simp_all add: good_def)
  then have g2: "good ?s2" and now2: "now ?s2 = now s + gap" by (simp_all add: f(6))
  have v2: "settings_inputs (views ?s2) = typed_value i v (settings_inputs (views s))"
    using n2 f(5) by (simp add: net_def)
  have rest2: "short_pauses (length (settings_inputs (views ?s2))) b"
    using rest by (simp add: v2)
  from Cons.IH [OF g2 rest2] n2 f(3,4) v2 now2 show ?case
    by (simp add: x admin_run_def net_def)
qed

lemma fire_absent:
  assumes "act t = DismissAlert a \<or> act t = RemoveAlert a" and "a \<notin> alert_id ` set (alerts s)"
  shows "alerts (admin_fire t s) = alerts s"
    and "timers (admin_fire t s) = filter (\<lambda>u. tid u \<noteq> tid t) (timers s)"
    and "net (admin_fire t s) = net s"
proof -
  have no: "\<not> list_ex (\<lambda>e. alert_id e = a) (alerts (base t s))"
    using assms(2) by (auto simp: list_ex_iff base_def)
  have keep: "filter (\<lambda>e. alert_id e \<noteq> a) (alerts s) = alerts s"
    using assms(2) by (auto simp: filter_id_conv)
  from assms(1) show "alerts (admin_fire t s) = alerts s"
  proof
    assume "act t = DismissAlert a"
    then show ?thesis using no by (simp add: admin_fire_base fadeOut_def base_def)
  next
    assume "act t = RemoveAlert a"
    then show ?thesis using keep by (simp add: admin_fire_base remove_alert_def base_def)
  qed
  from assms(1) show "timers (admin_fire t s) = filter (\<lambda>u. tid u \<noteq> tid t) (timers s)"
  proof
    assume "act t = DismissAlert a"
    then show ?thesis using no by (simp add: admin_fire_base fadeOut_def base_def)
  next
    assume "act t = RemoveAlert a"
    then show ?thesis by (simp add: admin_fire_base remove_alert_def base_def)
  qed
  from assms(1) show "net (admin_fire t s) = net s"
    by (intro net_fire) auto
qed

text \<open>Timeouts of alerts that are no longer displayed change nothing when they
  run.\<close>

lemma elapse_calm:
  "(\<forall>u\<in>set (timers s). due u \<le> T \<longrightarrow>
      (\<exists>a. (act u = DismissAlert a \<or> act u = RemoveAlert a) \<and> a \<notin> alert_id ` set (alerts s))) \<Longrightarrow>
   alerts (admin_elapse_to T s) = alerts s \<and> net (admin_elapse_to T s) = net s"
proof (induction T s rule: admin_elapse_to.induct)
  case (1 T s)
  show ?case
  proof (cases "earliest (timers s)")
    case None
    then show ?thesis by (subst (1 2) admin_elapse_to.simps) (simp add: net_def)
  next
    case (Some t)
    show ?thesis
    proof (cases "due t \<le> T")
      case True
      have m: "t \<in> set (timers s)" using Some by (rule earliest_mem)
      with "1.prems" True obtain a where a: "act t = DismissAlert a \<or> act t = RemoveAlert a"
        and na: "a \<notin> alert_id ` set (alerts s)" by blast
      note f = fire_absent [OF a na]
      have "\<forall>u\<in>set (timers (admin_fire t s)). due u \<le> T \<longrightarrow>
          (\<exists>a. (act u = DismissAlert a \<or> act u = RemoveAlert a) \<and>
               a \<notin> alert_id ` set (alerts (admin_fire t s)))"
        using "1.prems" unfolding f(1,2) by simp
      then have "alerts (admin_elapse_to T (admin_fire t s)) = alerts (admin_fire t s) \<and>
          net (admin_elapse_to T (admin_fire t s)) = net (admin_fire t s)"
        by (rule "1.IH" [OF Some True])
      then show ?thesis
        using Some True by (subst (1 2) admin_elapse_to.simps) (simp add: f)
    next
      case False
      then show ?thesis using Some by (subst (1 2) admin_elapse_to.simps) (simp add: net_def)
    qed
  qed
qed

text \<open>One auto-save is pending, due at \<open>T\<close>.\<close>

definition armed :: "nat \<Rightarrow> admin_state \<Rightarrow> bool" where
  "armed T s \<longleftrightarrow> admin_inv s \<and> now s \<le> T \<and>
     (\<exists>t0\<in>set (timers s). act t0 = AutoSave \<and> due t0 = T \<and>
        (\<forall>u\<in>set (timers s). act u = AutoSave \<longrightarrow> u = t0))"

text \<open>What the auto-save that runs at \<open>T\<close> leaves: one request with the fields of the
  form, its callback pending, and the notification.\<close>

definition autosaved :: "nat \<Rightarrow> admin_state \<Rightarrow> admin_state \<Rightarrow> bool" where
  "autosaved T s s' \<longleftrightarrow>
     requests s' = requests s @ [autosave_request (settings_inputs (views s))] \<and>
     pending s' = pending s @ [SaveSettingsCb] \<and>
     views s' = views s \<and>
     map alert_message (alerts s') = [Fixed Autosaving_settings] \<and>
     map alert_class (alerts s') = [js ''alert-info''] \<and>
     map alert_shown_at (alerts s') = [T]"

lemma fire_autosave:
  assumes inv: "admin_inv s" and nw: "now s \<le> T"
    and t0: "t0 \<in> set (timers s)" and a0: "act t0 = AutoSave"
    and d0: "due t0 = T" and only: "\<forall>u\<in>set (timers s). act u = AutoSave \<longrightarrow> u = t0"
  shows "autosaved T s (admin_elapse_to T (admin_fire t0 s))"
proof -
  let ?s1 = "admin_fire t0 s"
  have s1: "?s1 = saveSettings (admin_showAlert (Fixed Autosaving_settings) (js ''info'') (base t0 s))"
    using a0 by (simp add: admin_fire_base)
  have mx: "max (now s) T = T" using nw by simp
  have tm: "timers ?s1 = filter (\<lambda>u. tid u \<noteq> tid t0) (timers s) @
      [\<lparr>tid = next_timer s, due = T + 5000, act = DismissAlert (next_elem s)\<rparr>]"
    by (simp add: s1 saveSettings_def send_def admin_showAlert_fields base_def d0 mx)
  have info: "js ''info'' \<noteq> js ''error''" "js ''info'' \<noteq> js ''success''"
    by (simp_all add: js_def)
  have al: "map alert_id (alerts ?s1) = [next_elem s]"
    "map alert_message (alerts ?s1) = [Fixed Autosaving_settings]"
    "map alert_class (alerts ?s1) = [js ''alert-info'']"
    "map alert_shown_at (alerts ?s1) = [T]"
    using info
    by (simp_all add: s1 saveSettings_def send_def admin_showAlert_def setTimeout_def Let_def
          base_def d0 mx)
  have nt: "requests ?s1 = requests s @ [autosave_request (settings_inputs (views s))]"
    "pending ?s1 = pending s @ [SaveSettingsCb]" "views ?s1 = views s"
    by (simp_all add: s1 saveSettings_def send_def admin_showAlert_def setTimeout_def Let_def
          autosave_request_def base_def)
  from inv have tok: "timers_ok s" by (simp add: admin_inv_def page_inv_def)
  have ids: "alert_id ` set (alerts ?s1) = {next_elem s}"
    using al(1) by (metis list.set_map list.simps(15) empty_set)
  have calm: "\<forall>u\<in>set (timers ?s1). due u \<le> T \<longrightarrow>
      (\<exists>a. (act u = DismissAlert a \<or> act u = RemoveAlert a) \<and> a \<notin> alert_id ` set (alerts ?s1))"
  proof (intro ballI impI)
    fix u assume u: "u \<in> set (timers ?s1)" and du: "due u \<le> T"
    from u tm have "u \<in> set (timers s) \<and> tid u \<noteq> tid t0 \<or>
        u = \<lparr>tid = next_timer s, due = T + 5000, act = DismissAlert (next_elem s)\<rparr>"
      by auto
    then show "\<exists>a. (act u = DismissAlert a \<or> act u = RemoveAlert a) \<and>
        a \<notin> alert_id ` set (alerts ?s1)"
    proof
      assume o: "u \<in> set (timers s) \<and> tid u \<noteq> tid t0"
      then have "u \<noteq> t0" by auto
      with only o have na: "act u \<noteq> AutoSave" by blast
      have ok: "timer_ok (now s) (next_timer s) (next_elem s) (alerts s) u"
        using tok o by (simp add: timers_ok_def)
      show ?thesis
      proof (cases "act u")
        case (DismissAlert a)
        then have "a < next_elem s" using ok by (simp add: timer_ok_def)
        then show ?thesis using DismissAlert ids by auto
      next
        case (RemoveAlert a)
        then have "a < next_elem s" using ok by (simp add: timer_ok_def)
        then show ?thesis using RemoveAlert ids by auto
      next
        case AutoSave
        with na show ?thesis by simp
      qed
    next
      assume "u = \<lparr>tid = next_timer s, due = T + 5000, act = DismissAlert (next_elem s)\<rparr>"
      with du show ?thesis by simp
    qed
  qed
  from elapse_calm [OF calm] have "alerts (admin_elapse_to T ?s1) = alerts ?s1"
    and "net (admin_elapse_to T ?s1) = net ?s1" by simp_all
  then show ?thesis using nt al by (simp add: autosaved_def net_def)
qed

lemma autosaved_net: "net s' = net s \<Longrightarrow> autosaved T s' x \<Longrightarrow> autosaved T s x"
  by (simp add: autosaved_def net_def)

lemma elapse_autosaves: "armed T s \<Longrightarrow> autosaved T s (admin_elapse_to T s)"
proof (induction T s rule: admin_elapse_to.induct)
  case (1 T s)
  from "1.prems" obtain t0 where inv: "admin_inv s" and nw: "now s \<le> T"
    and t0: "t0 \<in> set (timers s)" and a0: "act t0 = AutoSave" and d0: "due t0 = T"
    and only: "\<forall>u\<in>set (timers s). act u = AutoSave \<longrightarrow> u = t0"
    unfolding armed_def by blast
  from t0 obtain t where e: "earliest (timers s) = Some t"
    by (cases "earliest (timers s)") (auto simp: earliest_None)
  have m: "t \<in> set (timers s)" using e by (rule earliest_mem)
  have dt: "due t \<le> T" using earliest_le [OF e t0] d0 by simp
  have unfold: "admin_elapse_to T s = admin_elapse_to T (admin_fire t s)"
    using e dt by (subst admin_elapse_to.simps) simp
  show ?case
  proof (cases "act t = AutoSave")
    case True
    have "t = t0" using only m True by simp
    then show ?thesis
      using fire_autosave [OF inv nw t0 a0 d0 only] unfold by simp
  next
    case False
    have ne: "t \<noteq> t0" using False a0 by auto
    from inv have tok: "timers_ok s" by (simp add: admin_inv_def page_inv_def)
    have "tid t0 \<noteq> tid t"
      using tok t0 m ne by (auto simp: timers_ok_def distinct_map inj_on_def)
    then have "t0 \<in> set (filter (\<lambda>u. act u = AutoSave) (filter (\<lambda>u. tid u \<noteq> tid t) (timers s)))"
      using t0 a0 by simp
    then have "t0 \<in> set (filter (\<lambda>u. act u = AutoSave) (timers (admin_fire t s)))"
      unfolding autosaves_fire [OF False] .
    then have t0': "t0 \<in> set (timers (admin_fire t s))" by simp
    have only': "\<forall>u\<in>set (timers (admin_fire t s)). act u = AutoSave \<longrightarrow> u = t0"
    proof (intro ballI impI)
      fix u assume "u \<in> set (timers (admin_fire t s))" "act u = AutoSave"
      then have "u \<in> set (filter (\<lambda>u. act u = AutoSave) (timers (admin_fire t s)))" by simp
      then have "u \<in> set (timers s)" "act u = AutoSave"
        unfolding autosaves_fire [OF False] by simp_all
      then show "u = t0" using only by blast
    qed
    have n': "now (admin_fire t s) \<le> T" using nw dt by (simp add: now_admin_fire)
    have "\<exists>t0\<in>set (timers (admin_fire t s)). act t0 = AutoSave \<and> due t0 = T \<and>
        (\<forall>u\<in>set (timers (admin_fire t s)). act u = AutoSave \<longrightarrow> u = t0)"
      using t0' a0 d0 only' by blast
    with admin_inv_fire [OF inv e] n' have "armed T (admin_fire t s)"
      unfolding armed_def by simp
    then have "autosaved T (admin_fire t s) (admin_elapse_to T (admin_fire t s))"
      by (rule "1.IH" [OF e dt])
    then have "autosaved T s (admin_elapse_to T (admin_fire t s))"
      by (rule autosaved_net [OF net_fire [OF False]])
    then show ?thesis using unfold by simp
  qed
qed

lemma armed_after_typing:
  assumes g: "good s" and i: "i < length (settings_inputs (views s))"
  shows "armed (now s + 2000) (type_setting i v s)"
proof -
  note f = type_setting_fields [OF g i, of v, unfolded admin_step.simps]
  let ?new = "\<lparr>tid = next_timer s, due = now s + 2000, act = AutoSave\<rparr>"
  let ?ts = "timers (type_setting i v s)"
  have "set (filter (\<lambda>u. act u = AutoSave) ?ts) = {?new}"
    unfolding f(2) by simp
  then have mem: "{u \<in> set ?ts. act u = AutoSave} = {?new}"
    by (simp only: set_filter)
  have new: "?new \<in> set ?ts" using mem by blast
  have only: "\<forall>u\<in>set ?ts. act u = AutoSave \<longrightarrow> u = ?new" using mem by blast
  have a: "act ?new = AutoSave" "due ?new = now s + 2000" by simp_all
  have "\<exists>t0\<in>set ?ts. act t0 = AutoSave \<and> due t0 = now s + 2000 \<and>
      (\<forall>u\<in>set ?ts. act u = AutoSave \<longrightarrow> u = t0)"
    using new a only by blast
  moreover have "admin_inv (type_setting i v s)" using f(1) by (simp only: good_def)
  moreover have "now (type_setting i v s) \<le> now s + 2000" unfolding f(6) by simp
  ultimately show ?thesis unfolding armed_def by blast
qed

text \<open>The object that \<open>saveSettings\<close> builds, read as a map: every name of an input
  has the value of the last input of that name.\<close>

lemma map_of_assign: "map_of (assign k v acc) = (map_of acc)(k \<mapsto> v)"
  by (induction acc) (auto simp: fun_eq_iff)

lemma keys_assign: "fst ` set (assign k v acc) = insert k (fst ` set acc)"
  by (induction acc) auto

lemma distinct_assign: "distinct (map fst acc) \<Longrightarrow> distinct (map fst (assign k v acc))"
  by (induction acc) (auto simp: keys_assign)

lemma assign_new: "k \<notin> fst ` set acc \<Longrightarrow> assign k v acc = acc @ [(k, v)]"
  by (induction acc) auto

lemma fold_assign_map_of:
  "map_of (fold (\<lambda>i acc. assign (set_key i) (set_value i) acc) inputs acc) =
     map_of (rev (map (\<lambda>x. (set_key x, set_value x)) inputs) @ acc)"
proof (induction inputs arbitrary: acc)
  case Nil
  then show ?case by simp
next
  case (Cons x inputs)
  show ?case
    by (simp add: Cons.IH map_of_assign fun_eq_iff map_add_def split: option.splits)
qed

lemma fold_assign_distinct:
  "distinct (map fst acc) \<Longrightarrow>
     distinct (map fst (fold (\<lambda>i acc. assign (set_key i) (set_value i) acc) inputs acc))"
  by (induction inputs arbitrary: acc) (simp_all add: distinct_assign)

lemma fold_assign_new:
  "distinct (map set_key inputs) \<Longrightarrow> set (map set_key inputs) \<inter> fst ` set acc = {} \<Longrightarrow>
     fold (\<lambda>i acc. assign (set_key i) (set_value i) acc) inputs acc =
       acc @ map (\<lambda>x. (set_key x, set_value x)) inputs"
proof (induction inputs arbitrary: acc)
  case Nil
  then show ?case by simp
next
  case (Cons x inputs)
  have k: "set_key x \<notin> fst ` set acc" using Cons.prems(2) by auto
  have a: "assign (set_key x) (set_value x) acc = acc @ [(set_key x, set_value x)]"
    using k by (rule assign_new)
  have d: "distinct (map set_key inputs)" using Cons.prems(1) by simp
  have "set (map set_key inputs) \<inter> fst ` set (acc @ [(set_key x, set_value x)]) = {}"
    using Cons.prems by auto
  from Cons.IH [OF d this] show ?case by (simp add: a)
qed

lemma collect_settings_map:
  "map_of (collect_settings inputs) = map_of (rev (map (\<lambda>x. (set_key x, set_value x)) inputs))"
  "distinct (map fst (collect_settings inputs))"
  "distinct (map set_key inputs) \<Longrightarrow>
     collect_settings inputs = map (\<lambda>x. (set_key x, set_value x)) inputs"
  unfolding collect_settings_def
  using fold_assign_map_of [of inputs "[]"] fold_assign_distinct [of "[]" inputs]
    fold_assign_new [of inputs "[]"]
  by simp_all

lemma length_typed [simp]: "length (typed b inputs) = length inputs"
  by (induction b inputs rule: typed.induct) simp_all

lemma debounce:
  assumes g: "good r" and b: "short_pauses (length (settings_inputs (views r))) b"
    and i: "i < length (settings_inputs (views r))"
  shows "d < 2000 \<Longrightarrow>
           requests (admin_run (typing b @ [TypeSetting i v, AdminElapse d]) r) = requests r"
    and "autosaved (now r + duration b + 2000)
           (type_setting i v (admin_run (typing b) r))
           (admin_run (typing b @ [TypeSetting i v, AdminElapse 2000]) r)"
    and "requests (type_setting i v (admin_run (typing b) r)) = requests r"
    and "pending (type_setting i v (admin_run (typing b) r)) = pending r"
    and "settings_inputs (views (type_setting i v (admin_run (typing b) r))) =
           typed_value i v (typed b (settings_inputs (views r)))"
proof -
  let ?s0 = "admin_run (typing b) r"
  let ?s1 = "type_setting i v ?s0"
  note bu = burst [OF g b]
  have g0: "good ?s0" and n0: "now ?s0 = now r + duration b" using bu by simp_all
  have i0: "i < length (settings_inputs (views ?s0))" using bu i by simp
  note f = type_setting_fields [OF g0 i0, of v, unfolded admin_step.simps]
  have run: "admin_run (typing b @ [TypeSetting i v, AdminElapse d]) r =
      admin_elapse_to (now ?s1 + d) ?s1" for d
    by (simp add: admin_run_append) (simp add: admin_run_def)
  show "requests ?s1 = requests r" "pending ?s1 = pending r"
    "settings_inputs (views ?s1) = typed_value i v (typed b (settings_inputs (views r)))"
    using f(3,4,5) bu by simp_all
  {
    assume d: "d < 2000"
    have far: "\<forall>u\<in>set (timers ?s1). act u = AutoSave \<longrightarrow> now ?s1 + d < due u"
    proof (intro ballI impI)
      fix u assume "u \<in> set (timers ?s1)" "act u = AutoSave"
      then have "u \<in> set (filter (\<lambda>u. act u = AutoSave) (timers ?s1))" by simp
      then have "u = \<lparr>tid = next_timer ?s0, due = now ?s0 + 2000, act = AutoSave\<rparr>"
        unfolding f(2) by simp
      then show "now ?s1 + d < due u" using d by (simp add: f(6))
    qed
    have "net (admin_elapse_to (now ?s1 + d) ?s1) = net ?s1" using far by (rule elapse_before)
    then show "requests (admin_run (typing b @ [TypeSetting i v, AdminElapse d]) r) = requests r"
      unfolding run using f(3) bu by (simp add: net_def)
  }
  have "armed (now ?s0 + 2000) ?s1" using g0 i0 by (rule armed_after_typing)
  then have "autosaved (now ?s0 + 2000) ?s1 (admin_elapse_to (now ?s0 + 2000) ?s1)"
    by (rule elapse_autosaves)
  then show "autosaved (now r + duration b + 2000) ?s1
      (admin_run (typing b @ [TypeSetting i v, AdminElapse 2000]) r)"
    unfolding run f(6) n0 .
qed

text \<open>
  C10. In every state the admin page reaches from \<open>ready\<close>:

  \<^item> an input into a field of the settings form changes the value of that field,
    sends nothing, and leaves exactly one auto-save pending, due 2000 ms later;
  \<^item> after a burst of inputs with pauses shorter than 2000 ms and one more input,
    nothing has been sent as long as less than 2000 ms have passed since the last
    input; when 2000 ms have passed, exactly one request has been sent, a POST to
    \<open>/admin/api/settings\<close> with the values the fields have after the last input; its
    callback is pending and the info notification of the auto-save is displayed,
    created at that moment;
  \<^item> the object sent gives to every name of a field the value of the last field of
    that name, each name once; when the names are distinct it is the list of the
    fields with their values.
\<close>

theorem C10_autosave_debounce:
  "(i < length (settings_inputs (views (admin_run evs (admin_init cs fm)))) \<longrightarrow>
      filter (\<lambda>u. act u = AutoSave)
        (timers (admin_step (TypeSetting i v) (admin_run evs (admin_init cs fm)))) =
        [\<lparr>tid = next_timer (admin_run evs (admin_init cs fm)),
          due = now (admin_run evs (admin_init cs fm)) + 2000, act = AutoSave\<rparr>] \<and>
      requests (admin_step (TypeSetting i v) (admin_run evs (admin_init cs fm))) =
        requests (admin_run evs (admin_init cs fm)) \<and>
      settings_inputs (views (admin_step (TypeSetting i v) (admin_run evs (admin_init cs fm)))) =
        typed_value i v (settings_inputs (views (admin_run evs (admin_init cs fm))))) \<and>
   (short_pauses (length (settings_inputs (views (admin_run evs (admin_init cs fm))))) b \<and>
    i < length (settings_inputs (views (admin_run evs (admin_init cs fm)))) \<longrightarrow>
      (d < 2000 \<longrightarrow>
         requests (admin_run (typing b @ [TypeSetting i v, AdminElapse d])
                     (admin_run evs (admin_init cs fm))) =
           requests (admin_run evs (admin_init cs fm))) \<and>
      requests (admin_run (typing b @ [TypeSetting i v, AdminElapse 2000])
                  (admin_run evs (admin_init cs fm))) =
        requests (admin_run evs (admin_init cs fm)) @
        [\<lparr>req_url = js ''/admin/api/settings'', req_method = js ''POST'',
          req_body = SettingsJson (collect_settings
            (typed_value i v (typed b (settings_inputs (views (admin_run evs (admin_init cs fm)))))))\<rparr>] \<and>
      pending (admin_run (typing b @ [TypeSetting i v, AdminElapse 2000])
                 (admin_run evs (admin_init cs fm))) =
        pending (admin_run evs (admin_init cs fm)) @ [SaveSettingsCb] \<and>
      map alert_message (alerts (admin_run (typing b @ [TypeSetting i v, AdminElapse 2000])
                                   (admin_run evs (admin_init cs fm)))) =
        [Fixed Autosaving_settings] \<and>
      map alert_class (alerts (admin_run (typing b @ [TypeSetting i v, AdminElapse 2000])
                                 (admin_run evs (admin_init cs fm)))) =
        [js ''alert-info''] \<and>
      map alert_shown_at (alerts (admin_run (typing b @ [TypeSetting i v, AdminElapse 2000])
                                    (admin_run evs (admin_init cs fm)))) =
        [now (admin_run evs (admin_init cs fm)) + duration b + 2000]) \<and>
   map_of (collect_settings inputs) =
     map_of (rev (map (\<lambda>x. (set_key x, set_value x)) inputs)) \<and>
   distinct (map fst (collect_settings inputs)) \<and>
   (distinct (map set_key inputs) \<longrightarrow>
      collect_settings inputs = map (\<lambda>x. (set_key x, set_value x)) inputs)"
proof -
  let ?r = "admin_run evs (admin_init cs fm)"
  have g: "good ?r" by (rule good_run [OF good_init])
  have 1: "filter (\<lambda>u. act u = AutoSave) (timers (admin_step (TypeSetting i v) ?r)) =
        [\<lparr>tid = next_timer ?r, due = now ?r + 2000, act = AutoSave\<rparr>] \<and>
      requests (admin_step (TypeSetting i v) ?r) = requests ?r \<and>
      settings_inputs (views (admin_step (TypeSetting i v) ?r)) =
        typed_value i v (settings_inputs (views ?r))"
    if "i < length (settings_inputs (views ?r))"
    using type_setting_fields [OF g that, of v] by blast
  have 2: "(d < 2000 \<longrightarrow>
         requests (admin_run (typing b @ [TypeSetting i v, AdminElapse d]) ?r) = requests ?r) \<and>
      requests (admin_run (typing b @ [TypeSetting i v, AdminElapse 2000]) ?r) =
        requests ?r @
        [\<lparr>req_url = js ''/admin/api/settings'', req_method = js ''POST'',
          req_body = SettingsJson (collect_settings
            (typed_value i v (typed b (settings_inputs (views ?r)))))\<rparr>] \<and>
      pending (admin_run (typing b @ [TypeSetting i v, AdminElapse 2000]) ?r) =
        pending ?r @ [SaveSettingsCb] \<and>
      map alert_message (alerts (admin_run (typing b @ [TypeSetting i v, AdminElapse 2000]) ?r)) =
        [Fixed Autosaving_settings] \<and>
      map alert_class (alerts (admin_run (typing b @ [TypeSetting i v, AdminElapse 2000]) ?r)) =
        [js ''alert-info''] \<and>
      map alert_shown_at (alerts (admin_run (typing b @ [TypeSetting i v, AdminElapse 2000]) ?r)) =
        [now ?r + duration b + 2000]"
    if "short_pauses (length (settings_inputs (views ?r))) b \<and>
        i < length (settings_inputs (views ?r))"
  proof -
    from that have b: "short_pauses (length (settings_inputs (views ?r))) b"
      and i: "i < length (settings_inputs (views ?r))" by simp_all
    note db1 = debounce(1) [OF g b i] and db = debounce(2-5) [OF g b i]
    show ?thesis
      using db1 [of d v] db [of v] by (simp add: autosaved_def autosave_request_def)
  qed
  from 1 2 collect_settings_map [of inputs] show ?thesis by blast
qed

text \<open>The settings section with two fields loaded, and a burst of typing into them:
  two inputs with pauses of half a second and of a second and a half, then a third.\<close>

definition two_settings :: "setting list" where
  "two_settings =
     [\<lparr>set_key = js ''site_name'', set_description = js ''Name'', set_value = js ''Site''\<rparr>,
      \<lparr>set_key = js ''max_downloads'', set_description = js ''Limit'', set_value = js ''10''\<rparr>]"

definition settings_events :: "admin_event list" where
  "settings_events = [ClickNav (js ''settings''), AdminRespond 2 (SettingsOk two_settings)]"

definition two_inputs :: "(nat \<times> jsstring \<times> nat) list" where
  "two_inputs = [(0, js ''My'', 500), (1, js ''5'', 1500)]"

lemma settings_page_eval:
  "settings_inputs (views (admin_run settings_events page0)) = two_settings"
  by (simp add: settings_events_def page0_defs admin_defs admin_deliver_def on_settings_def
        updateSettingsForm_def js_def)

lemma two_inputs_eval:
  "short_pauses (length two_settings) two_inputs"
  "0 < length two_settings" "two_settings \<noteq> []"
  "duration two_inputs = 2000"
  "collect_settings (typed_value 0 (js ''My site'') (typed two_inputs two_settings)) =
     [(js ''site_name'', js ''My site''), (js ''max_downloads'', js ''5'')]"
  by (simp_all add: short_pauses_def two_inputs_def two_settings_def typed_value_def
        collect_settings_def js_def)

text \<open>Nothing is sent 1999 ms after the last input; at 2000 ms the one request with
  the two values is.\<close>

theorem C10_autosave_debounce_witness:
  "short_pauses (length (settings_inputs (views (admin_run settings_events page0)))) two_inputs \<and>
   0 < length (settings_inputs (views (admin_run settings_events page0))) \<and>
   requests (admin_run (typing two_inputs @ [TypeSetting 0 (js ''My site''), AdminElapse 1999])
               (admin_run settings_events page0)) =
     requests (admin_run settings_events page0) \<and>
   requests (admin_run (typing two_inputs @ [TypeSetting 0 (js ''My site''), AdminElapse 2000])
               (admin_run settings_events page0)) =
     requests (admin_run settings_events page0) @
     [\<lparr>req_url = js ''/admin/api/settings'', req_method = js ''POST'',
       req_body = SettingsJson [(js ''site_name'', js ''My site''), (js ''max_downloads'', js ''5'')]\<rparr>] \<and>
   map alert_message
     (alerts (admin_run (typing two_inputs @ [TypeSetting 0 (js ''My site''), AdminElapse 2000])
                (admin_run settings_events page0))) = [Fixed Autosaving_settings] \<and>
   distinct (map set_key two_settings) \<and>
   collect_settings two_settings =
     [(js ''site_name'', js ''Site''), (js ''max_downloads'', js ''10'')]"
proof -
  have h: "short_pauses (length (settings_inputs (views (admin_run settings_events page0)))) two_inputs"
    "0 < length (settings_inputs (views (admin_run settings_events page0)))"
    by (simp_all add: settings_page_eval two_inputs_eval)
  have k: "distinct (map set_key two_settings)"
    by (simp add: two_settings_def js_def)
  note c = C10_autosave_debounce [where cs = template_sections and fm = empty_form
      and evs = settings_events and b = two_inputs and i = 0 and v = "js ''My site''"
      and inputs = two_settings, folded page0_def]
  have a: "requests (admin_run (typing two_inputs @ [TypeSetting 0 (js ''My site''), AdminElapse 1999])
               (admin_run settings_events page0)) =
     requests (admin_run settings_events page0)"
    using c [where d = 1999] h by simp
  have b: "requests (admin_run (typing two_inputs @ [TypeSetting 0 (js ''My site''), AdminElapse 2000])
               (admin_run settings_events page0)) =
     requests (admin_run settings_events page0) @
     [\<lparr>req_url = js ''/admin/api/settings'', req_method = js ''POST'',
       req_body = SettingsJson [(js ''site_name'', js ''My site''), (js ''max_downloads'', js ''5'')]\<rparr>]"
    "map alert_message
     (alerts (admin_run (typing two_inputs @ [TypeSetting 0 (js ''My site''), AdminElapse 2000])
                (admin_run settings_events page0))) = [Fixed Autosaving_settings]"
    using c [where d = 0] h by (simp_all add: settings_page_eval two_inputs_eval)
  have d: "collect_settings two_settings =
     [(js ''site_name'', js ''Site''), (js ''max_downloads'', js ''10'')]"
    using c [where d = 0] k by (simp add: two_settings_def)
  from h k a b d show ?thesis by simp
qed

end
